theory Spec2Isabelle
  imports Complex_Main "HOL-Library.Word" "HOL-Library.Log_Nat"
begin

unbundle bit_operations_syntax

section \<open>Numbers\<close>

text \<open>
  A JavaScript number is an IEEE 754 double. A finite double is modelled by the rational
  number it denotes, and the result of an operation by the rounding of its exact result:
  to the nearest number with a significand of 53 bits, a tie going to the even
  significand. For a positive \<open>a\<close>, \<open>exponent a\<close> is the integer \<open>e\<close> with
  \<open>2^e \<le> a < 2^(e+1)\<close>. \<open>ulp x\<close>, the unit in the last place, is the distance between
  neighbouring doubles at \<open>x\<close>; it stops shrinking below \<open>2^-1022\<close> (gradual underflow)
  and is \<open>2^-1074\<close> from there down to zero. The overflow to \<open>Infinity\<close> beyond \<open>2^1024\<close>
  is not modelled: the numbers rounded here are times in seconds.
\<close>

definition exponent :: "rat \<Rightarrow> int" where
  "exponent a =
     (if 1 \<le> a then int (floorlog 2 (nat \<lfloor>a\<rfloor>)) - 1
      else - int (floorlog 2 (nat \<lceil>1 / a\<rceil> - 1)))"

definition ulp :: "rat \<Rightarrow> rat" where
  "ulp x =
     (if x = 0 then 2 powi (- 1074) else 2 powi (max (exponent \<bar>x\<bar>) (- 1022) - 52))"

definition round_even :: "rat \<Rightarrow> int" where
  "round_even m =
     (let f = \<lfloor>m\<rfloor>; r = m - of_int f
      in if r < 1 / 2 then f else if 1 / 2 < r then f + 1 else if even f then f else f + 1)"

definition double_of :: "rat \<Rightarrow> rat" where
  "double_of x =
     (if x = 0 then 0
      else (let u = ulp x
            in sgn x * of_int (round_even (\<bar>x\<bar> / u)) * u))"

text \<open>The sum of two doubles, as \<open>+\<close> and \<open>+=\<close> compute it.\<close>

definition double_add :: "rat \<Rightarrow> rat \<Rightarrow> rat" where
  "double_add a b = double_of (a + b)"

section \<open>Audio utilities (services/audioUtils)\<close>

text \<open>
  The browser objects used by the utilities are modelled by their contents:
  an \<^verbatim>\<open>ArrayBuffer\<close> is a list of bytes, a \<^verbatim>\<open>Uint8Array\<close> is a view into such a buffer, an
  \<^verbatim>\<open>Int16Array\<close> is a list of 16-bit words, a \<^verbatim>\<open>Float32Array\<close> is the list of the
  rational numbers its (finite) elements denote. On such elements every arithmetic
  operation of the codec is exact: a product of a 24-bit significand with \<open>0x7FFF\<close> or
  \<open>0x8000\<close> fits a double, and a 16-bit integer divided by \<open>32768\<close> fits a float.
  A rejected promise or a thrown exception is the left summand of the result.
\<close>

type_synonym byte = "8 word"
type_synonym int16 = "16 word"
type_synonym sample = rat

datatype dom_exception =
  InvalidCharacterError | RangeError | NotSupportedError | InvalidStateError
  | NotAllowedError | NetworkError

text \<open>
  A \<^verbatim>\<open>Uint8Array\<close>: the buffer it looks into, and the offset and length of the part it
  shows. \<^verbatim>\<open>new Uint8Array(buffer)\<close> shows the whole buffer.
\<close>

record uint8_array =
  array_buffer :: "byte list"
  byteOffset :: nat
  byteLength :: nat

definition new_Uint8Array :: "byte list \<Rightarrow> uint8_array" where
  "new_Uint8Array b = \<lparr>array_buffer = b, byteOffset = 0, byteLength = length b\<rparr>"

subsection \<open>\<^verbatim>\<open>window.btoa\<close> and \<open>window.atob\<close>\<close>

text \<open>
  Both are browser functions. They follow the forgiving-base64 encode and decode of the
  WHATWG Infra standard: the alphabet \<open>A-Z a-z 0-9 + /\<close>, padding with \<open>=\<close>.
\<close>

definition b64_char :: "nat \<Rightarrow> char" where
  "b64_char n =
     char_of (if n < 26 then n + 65 else if n < 52 then n + 71 else if n < 62 then n - 4
              else if n = 62 then 43 else 47)"

definition b64_index :: "char \<Rightarrow> nat option" where
  "b64_index c =
     (let n = (of_char c :: nat) in
      if 65 \<le> n \<and> n \<le> 90 then Some (n - 65)
      else if 97 \<le> n \<and> n \<le> 122 then Some (n - 71)
      else if 48 \<le> n \<and> n \<le> 57 then Some (n + 4)
      else if n = 43 then Some 62
      else if n = 47 then Some 63
      else None)"

text \<open>Three octets become four sextets; a rest of one or two octets is filled with zero bits.\<close>

fun sextets :: "nat list \<Rightarrow> nat list" where
  "sextets (a # b # c # rest) =
     [a div 4, (a mod 4) * 16 + b div 16, (b mod 16) * 4 + c div 64, c mod 64] @ sextets rest"
| "sextets [a, b] = [a div 4, (a mod 4) * 16 + b div 16, (b mod 16) * 4]"
| "sextets [a] = [a div 4, (a mod 4) * 16]"
| "sextets [] = []"

definition btoa :: "string \<Rightarrow> string" where
  "btoa binary =
     (let body = map b64_char (sextets (map of_char binary))
      in body @ replicate ((4 - length body mod 4) mod 4) (CHR ''=''))"

definition is_ascii_whitespace :: "char \<Rightarrow> bool" where
  "is_ascii_whitespace c = ((of_char c :: nat) \<in> {9, 10, 12, 13, 32})"

definition strip_padding :: "string \<Rightarrow> string" where
  "strip_padding d =
     (if length d mod 4 = 0 then
        (if 2 \<le> length d \<and> drop (length d - 2) d = ''=='' then take (length d - 2) d
         else if 1 \<le> length d \<and> last d = CHR ''='' then butlast d
         else d)
      else d)"

text \<open>
  Four sextets become three octets. Of a rest of three sextets the last two bits are
  discarded, of a rest of two the last four; a single sextet cannot occur.
\<close>

fun octets :: "nat list \<Rightarrow> nat list" where
  "octets (a # b # c # d # rest) =
     [a * 4 + b div 16, (b mod 16) * 16 + c div 4, (c mod 4) * 64 + d] @ octets rest"
| "octets [a, b, c] = [a * 4 + b div 16, (b mod 16) * 16 + c div 4]"
| "octets [a, b] = [a * 4 + b div 16]"
| "octets [a] = []"
| "octets [] = []"

definition atob :: "string \<Rightarrow> dom_exception + string" where
  "atob data =
     (let d = strip_padding (filter (\<lambda>c. \<not> is_ascii_whitespace c) data)
      in if length d mod 4 = 1 then Inl InvalidCharacterError
         else if list_ex (\<lambda>c. b64_index c = None) d then Inl InvalidCharacterError
         else Inr (map char_of (octets (map (\<lambda>c. the (b64_index c)) d))))"

subsection \<open>\<^verbatim>\<open>base64ToArrayBuffer\<close> and \<^verbatim>\<open>arrayBufferToBase64\<close>\<close>

definition base64ToArrayBuffer :: "string \<Rightarrow> dom_exception + byte list" where
  "base64ToArrayBuffer base64 =
     (case atob base64 of
        Inl e \<Rightarrow> Inl e
      | Inr binaryString \<Rightarrow> Inr (map (\<lambda>c. word_of_nat (of_char c)) binaryString))"

definition arrayBufferToBase64 :: "byte list \<Rightarrow> string" where
  "arrayBufferToBase64 buffer = btoa (map (\<lambda>b. char_of (unat b)) buffer)"

subsection \<open>\<^verbatim>\<open>createPCM16Blob\<close>\<close>

text \<open>
  Storing a number into an \<^verbatim>\<open>Int16Array\<close> applies ECMAScript's \<open>ToInt16\<close>: the number is
  truncated towards zero and reduced modulo \<open>2^16\<close>. Typed arrays share their buffer in
  the platform's byte order, little-endian on every browser platform.
\<close>

definition truncate_toward_zero :: "rat \<Rightarrow> int" where
  "truncate_toward_zero q = (if q < 0 then \<lceil>q\<rceil> else \<lfloor>q\<rfloor>)"

definition ToInt16 :: "rat \<Rightarrow> int16" where
  "ToInt16 q = word_of_int (truncate_toward_zero q)"

definition int16_bytes :: "int16 \<Rightarrow> byte list" where
  "int16_bytes w = [ucast w, ucast (drop_bit 8 w)]"

record pcm_blob =
  blob_parts :: "int16 list"
  blob_type :: string

record pcm16 =
  blob :: pcm_blob
  base64 :: string

definition encode_sample :: "sample \<Rightarrow> int16" where
  "encode_sample x =
     (let s = max (- 1) (min 1 x)
      in ToInt16 (if s < 0 then s * 32768 else s * 32767))"

definition createPCM16Blob :: "sample list \<Rightarrow> pcm16" where
  "createPCM16Blob float32Data =
     (let int16 = map encode_sample float32Data;
          uint8 = new_Uint8Array (concat (map int16_bytes int16))
      in \<lparr>blob = \<lparr>blob_parts = int16, blob_type = ''audio/pcm''\<rparr>,
          base64 = arrayBufferToBase64 (array_buffer uint8)\<rparr>)"

subsection \<open>\<^verbatim>\<open>decodeAudioData\<close>\<close>

text \<open>
  What the Web Audio API refuses. The constructor \<^verbatim>\<open>new AudioContext({ sampleRate })\<close> and
  \<^verbatim>\<open>createBuffer\<close> throw a \<open>NotSupportedError\<close> for a sample rate outside the range the
  implementation supports; every implementation supports the rates from \<open>8000\<close> to
  \<open>96000\<close>, and the model supports no others. \<^verbatim>\<open>createBuffer\<close> throws the same error
  when the number of frames is zero or the number of channels is zero or above \<open>32\<close>.
  The duration of a buffer is the quotient of two doubles, its length and its rate.
\<close>

datatype context_state = Suspended | Running | ContextClosed

record audio_context =
  context_rate :: nat
  context_state :: context_state

definition supported_rate :: "nat \<Rightarrow> bool" where
  "supported_rate rate = (8000 \<le> rate \<and> rate \<le> 96000)"

definition new_AudioContext :: "nat \<Rightarrow> dom_exception + audio_context" where
  "new_AudioContext rate =
     (if supported_rate rate then Inr \<lparr>context_rate = rate, context_state = Running\<rparr>
      else Inl NotSupportedError)"

record audio_buffer =
  channelData :: "sample list"
  sampleRate :: nat

definition duration :: "audio_buffer \<Rightarrow> rat" where
  "duration b = double_of (of_nat (length (channelData b)) / of_nat (sampleRate b))"

definition createBuffer :: "nat \<Rightarrow> nat \<Rightarrow> nat \<Rightarrow> dom_exception + audio_buffer" where
  "createBuffer numberOfChannels frames rate =
     (if numberOfChannels = 0 \<or> 32 < numberOfChannels \<or> frames = 0 \<or> \<not> supported_rate rate
      then Inl NotSupportedError
      else Inr \<lparr>channelData = replicate frames 0, sampleRate = rate\<rparr>)"

text \<open>
  \<^verbatim>\<open>new Int16Array(buffer)\<close> throws a \<open>RangeError\<close> unless the byte length of the buffer is
  a multiple of two.
\<close>

fun int16_elements :: "byte list \<Rightarrow> int16 list" where
  "int16_elements (lo # hi # rest) = word_cat hi lo # int16_elements rest"
| "int16_elements [b] = []"
| "int16_elements [] = []"

definition new_Int16Array :: "byte list \<Rightarrow> dom_exception + int16 list" where
  "new_Int16Array buffer =
     (if odd (length buffer) then Inl RangeError else Inr (int16_elements buffer))"

text \<open>
  The function creates a context of its own for the rate it is given (line 64), then
  reads \<^verbatim>\<open>data.buffer\<close>, the buffer behind the view. It is \<^verbatim>\<open>async\<close> and awaits nothing:
  the promise it returns is settled, and an exception has rejected it.
\<close>

definition decodeAudioData :: "uint8_array \<Rightarrow> nat \<Rightarrow> dom_exception + audio_buffer" where
  "decodeAudioData data rate =
     (case new_AudioContext rate of
        Inl e \<Rightarrow> Inl e
      | Inr ctx \<Rightarrow>
          (case new_Int16Array (array_buffer data) of
             Inl e \<Rightarrow> Inl e
           | Inr dataInt16 \<Rightarrow>
               (let frameCount = length dataInt16
                in case createBuffer 1 frameCount rate of
                     Inl e \<Rightarrow> Inl e
                   | Inr buffer \<Rightarrow>
                       Inr (buffer\<lparr>channelData :=
                              map (\<lambda>v. of_int (sint v) / 32768) dataInt16\<rparr>))))"

section \<open>The live game (components/LiveGame)\<close>

subsection \<open>Inbound messages\<close>

text \<open>
  A \<^verbatim>\<open>LiveServerMessage\<close> with the fields the handler reads. Every field is optional, as
  the optional chaining of the source expects.
\<close>

record inline_blob =
  inline_data :: "string option"

record part =
  inlineData :: "inline_blob option"

record content =
  parts :: "part list option"

record server_content =
  modelTurn :: "content option"
  interrupted :: "bool option"

record live_server_message =
  serverContent :: "server_content option"

definition base64Audio_of :: "live_server_message \<Rightarrow> string option" where
  "base64Audio_of msg =
     Option.bind (serverContent msg) (\<lambda>sc.
     Option.bind (modelTurn sc) (\<lambda>turn.
     Option.bind (parts turn) (\<lambda>ps.
     Option.bind (case ps of [] \<Rightarrow> None | p # _ \<Rightarrow> Some p) (\<lambda>p.
     Option.bind (inlineData p) inline_data))))"

definition interrupted_of :: "live_server_message \<Rightarrow> bool" where
  "interrupted_of msg =
     (case serverContent msg of
        None \<Rightarrow> False
      | Some sc \<Rightarrow> (case interrupted sc of None \<Rightarrow> False | Some flag \<Rightarrow> flag))"

subsection \<open>Browser objects held by the component\<close>

datatype status = Connecting | Active | Error | Closed

datatype track_state = Live | Ended

type_synonym media_stream = "track_state list"

text \<open>
  A session of the transport: the media it was given with \<^verbatim>\<open>sendRealtimeInput\<close> (MIME type
  and base64 data, oldest first), whether it has been closed, and whether its \<^verbatim>\<open>close\<close>
  raises, which the environment decides.
\<close>

record session =
  realtimeInputs :: "(string \<times> string) list"
  session_closed :: bool
  close_throws :: bool

text \<open>
  The two callbacks the component registers on the session promise with \<^verbatim>\<open>then\<close>. A
  callback that raises rejects the promise \<^verbatim>\<open>then\<close> returned; nothing handles that promise.
\<close>

datatype reaction = SendRealtimeInput string string | CloseSession

fun run_reaction :: "reaction \<Rightarrow> session \<Rightarrow> dom_exception + session" where
  "run_reaction (SendRealtimeInput mimeType d) s =
     Inr (s\<lparr>realtimeInputs := realtimeInputs s @ [(mimeType, d)]\<rparr>)"
| "run_reaction CloseSession s =
     (if close_throws s then Inl NetworkError else Inr (s\<lparr>session_closed := True\<rparr>))"

datatype session_promise = Pending "reaction list" | Fulfilled session | Rejected dom_exception

text \<open>
  \<^verbatim>\<open>promise.then(callback)\<close>: the new promise state and the rejections left unhandled. On a
  pending promise the callback waits; on a fulfilled one it runs in the microtask that
  follows; on a rejected one it never runs. \<^verbatim>\<open>then\<close> itself does not raise.
\<close>

fun promise_then :: "reaction \<Rightarrow> session_promise \<Rightarrow> session_promise \<times> dom_exception list" where
  "promise_then r (Pending rs) = (Pending (rs @ [r]), [])"
| "promise_then r (Fulfilled s) =
     (case run_reaction r s of
        Inl e \<Rightarrow> (Fulfilled s, [e])
      | Inr s' \<Rightarrow> (Fulfilled s', []))"
| "promise_then r (Rejected e) = (Rejected e, [e])"

text \<open>
  Calls made on buffer source nodes: \<^verbatim>\<open>source.start(when)\<close>, with the node, the time
  and the duration of the node's buffer, and \<^verbatim>\<open>source.stop()\<close>. A node is identified by
  the number of nodes created before it.
\<close>

datatype audio_call = SourceStart nat rat rat | SourceStop nat

subsection \<open>The component\<close>

text \<open>
  The state \<open>isMuted\<close> and \<open>status\<close> of the latest render, the refs, and the variables of
  the running effect: \<open>isActive\<close>, and \<open>effect_isMuted\<close>, the binding of \<open>isMuted\<close> that
  the closures created by the effect see. The last four fields record what the component
  did: nodes created, calls on them, unhandled promise rejections, lines written to the
  console.
\<close>

record live_game =
  status :: status
  isMuted :: bool
  inputContextRef :: "audio_context option"
  outputContextRef :: "audio_context option"
  streamRef :: "media_stream option"
  processorRef :: "nat option"
  inputAnalyserRef :: "unit option"
  outputAnalyserRef :: "unit option"
  sessionRef :: "session_promise option"
  nextStartTimeRef :: rat
  sourcesRef :: "nat list"
  isActive :: bool
  effect_isMuted :: bool
  nodeCount :: nat
  calls :: "audio_call list"
  unhandled :: "dom_exception list"
  console :: "string list"

definition first_render :: live_game where
  "first_render =
     \<lparr>status = Connecting, isMuted = False,
      inputContextRef = None, outputContextRef = None, streamRef = None,
      processorRef = None, inputAnalyserRef = None, outputAnalyserRef = None,
      sessionRef = None, nextStartTimeRef = 0, sourcesRef = [],
      isActive = False, effect_isMuted = False,
      nodeCount = 0, calls = [], unhandled = [], console = []\<rparr>"

definition session_then :: "reaction \<Rightarrow> live_game \<Rightarrow> live_game" where
  "session_then r c =
     (case sessionRef c of
        None \<Rightarrow> c
      | Some p \<Rightarrow>
          (case promise_then r p of
             (p', es) \<Rightarrow> c\<lparr>sessionRef := Some p', unhandled := unhandled c @ es\<rparr>))"

subsection \<open>Capture: \<^verbatim>\<open>onaudioprocess\<close> and \<^verbatim>\<open>toggleMute\<close>\<close>

definition onaudioprocess :: "sample list \<Rightarrow> live_game \<Rightarrow> live_game" where
  "onaudioprocess inputData c =
     (if effect_isMuted c then c
      else session_then
             (SendRealtimeInput ''audio/pcm;rate=16000'' (base64 (createPCM16Blob inputData))) c)"

definition toggleMute :: "live_game \<Rightarrow> live_game" where
  "toggleMute c = c\<lparr>isMuted := \<not> isMuted c\<rparr>"

subsection \<open>The effect: \<^verbatim>\<open>startSession\<close>\<close>

text \<open>
  The effect runs after the first render and when \<open>questions\<close> or \<open>personality\<close> change,
  not when \<open>isMuted\<close> changes. Its closures see the \<open>isMuted\<close> of the render that ran it.
  The environment decides whether an API key is configured and what \<^verbatim>\<open>getUserMedia\<close>
  answers.

  \<^verbatim>\<open>startSession\<close> has one \<^verbatim>\<open>await\<close>, at line 46. \<open>startSession_begin\<close> is the effect up to
  there: it sets \<open>isActive\<close> and runs lines 35 to 46, and either returns through the
  \<^verbatim>\<open>catch\<close> block or is left waiting for \<^verbatim>\<open>getUserMedia\<close>. \<open>startSession_resume\<close> is the
  rest, lines 46 to 170, run when that promise has settled; nothing in it reads
  \<open>isActive\<close>. \<^verbatim>\<open>ai.live.connect\<close> is not awaited: the session promise is stored pending.
  Nodes may be created on a context that has been closed.
\<close>

record environment =
  apiKey :: bool
  getUserMedia :: "dom_exception + media_stream"

datatype start = StartReturned live_game | AwaitingMedia live_game

text \<open>The \<^verbatim>\<open>catch\<close> block, lines 167 to 170.\<close>

definition start_failed :: "live_game \<Rightarrow> live_game" where
  "start_failed c = c\<lparr>status := Error, console := console c @ [''Setup failed'']\<rparr>"

definition startSession_begin :: "environment \<Rightarrow> live_game \<Rightarrow> start" where
  "startSession_begin env c0 =
     (let c = c0\<lparr>isActive := True, effect_isMuted := isMuted c0\<rparr>
      in if \<not> apiKey env then StartReturned (start_failed c)
         else
           (case new_AudioContext 16000 of
              Inl e \<Rightarrow> StartReturned (start_failed c)
            | Inr input \<Rightarrow>
                (let c = c\<lparr>inputContextRef := Some input\<rparr>
                 in case new_AudioContext 24000 of
                      Inl e \<Rightarrow> StartReturned (start_failed c)
                    | Inr output \<Rightarrow> AwaitingMedia (c\<lparr>outputContextRef := Some output\<rparr>))))"

definition startSession_resume :: "environment \<Rightarrow> live_game \<Rightarrow> live_game" where
  "startSession_resume env c =
     (case getUserMedia env of
        Inl e \<Rightarrow> start_failed c
      | Inr stream \<Rightarrow>
          c\<lparr>streamRef := Some stream,
            inputAnalyserRef := Some (),
            processorRef := Some 4096,
            outputAnalyserRef := Some (),
            sessionRef := Some (Pending [])\<rparr>)"

text \<open>The effect with nothing happening while \<^verbatim>\<open>getUserMedia\<close> is pending.\<close>

definition startSession :: "environment \<Rightarrow> live_game \<Rightarrow> live_game" where
  "startSession env c0 =
     (case startSession_begin env c0 of
        StartReturned c \<Rightarrow> c
      | AwaitingMedia c \<Rightarrow> startSession_resume env c)"

text \<open>The connection opens: the promise is fulfilled, waiting callbacks run in order.\<close>

fun run_reactions :: "reaction list \<Rightarrow> session \<Rightarrow> session \<times> dom_exception list" where
  "run_reactions [] s = (s, [])"
| "run_reactions (r # rs) s =
     (case run_reaction r s of
        Inl e \<Rightarrow> (case run_reactions rs s of (s', es) \<Rightarrow> (s', e # es))
      | Inr s1 \<Rightarrow> run_reactions rs s1)"

definition onopen :: "live_game \<Rightarrow> live_game" where
  "onopen c =
     (let c = (if isActive c then c\<lparr>status := Active\<rparr> else c)
      in c\<lparr>console := console c @ [''Live Session Connected'']\<rparr>)"

definition onclose :: "live_game \<Rightarrow> live_game" where
  "onclose c = (if isActive c then c\<lparr>status := Closed\<rparr> else c)"

definition onerror :: "live_game \<Rightarrow> live_game" where
  "onerror c =
     (let c = c\<lparr>console := console c @ [''Live Session Error'']\<rparr>
      in if isActive c then c\<lparr>status := Error\<rparr> else c)"

definition session_opened :: "session \<Rightarrow> live_game \<Rightarrow> live_game" where
  "session_opened s c =
     (case sessionRef c of
        Some (Pending rs) \<Rightarrow>
          (case run_reactions rs s of
             (s', es) \<Rightarrow>
               onopen (c\<lparr>sessionRef := Some (Fulfilled s'), unhandled := unhandled c @ es\<rparr>))
      | _ \<Rightarrow> c)"

subsection \<open>Playback: \<^verbatim>\<open>onmessage\<close>\<close>

text \<open>
  Lines 126 to 140: a source node is created for the decoded buffer and started at the
  schedule cursor, which first catches up with the clock. \<open>currentTime\<close> is the value
  read from the output context. The cursor is a number, so \<^verbatim>\<open>+=\<close> at line 137 rounds.
  \<^verbatim>\<open>sourcesRef\<close> is a \<^verbatim>\<open>Set\<close>: insertion order, no duplicates.
\<close>

definition schedule :: "rat \<Rightarrow> audio_buffer \<Rightarrow> live_game \<Rightarrow> live_game" where
  "schedule currentTime audioBuffer c0 =
     (let source = nodeCount c0;
          c = c0\<lparr>nodeCount := Suc source\<rparr>;
          c = (if nextStartTimeRef c < currentTime
               then c\<lparr>nextStartTimeRef := currentTime\<rparr> else c);
          c = c\<lparr>calls := calls c @ [SourceStart source (nextStartTimeRef c) (duration audioBuffer)]\<rparr>;
          c = c\<lparr>nextStartTimeRef := double_add (nextStartTimeRef c) (duration audioBuffer)\<rparr>
      in c\<lparr>sourcesRef :=
             (if source \<in> set (sourcesRef c) then sourcesRef c else sourcesRef c @ [source])\<rparr>)"

text \<open>The \<^verbatim>\<open>onended\<close> callback of a source node.\<close>

definition onended :: "nat \<Rightarrow> live_game \<Rightarrow> live_game" where
  "onended source c = c\<lparr>sourcesRef := removeAll source (sourcesRef c)\<rparr>"

text \<open>Lines 147 to 154: every active source is stopped, the set cleared, the cursor reset.\<close>

definition interrupt :: "live_game \<Rightarrow> live_game" where
  "interrupt c =
     c\<lparr>console := console c @ [''Model interrupted''],
       calls := calls c @ map SourceStop (sourcesRef c),
       sourcesRef := [],
       nextStartTimeRef := 0\<rparr>"

text \<open>
  The handler has one \<^verbatim>\<open>await\<close>, at line 121. \<open>onmessage_begin\<close> is the handler up to
  there. Without a fragment, or when \<^verbatim>\<open>atob\<close> throws (the \<^verbatim>\<open>catch\<close> block, \<open>decode_failed\<close>,
  logs it), the handler goes on to the interruption block and returns; otherwise it is
  suspended on the promise of \<^verbatim>\<open>decodeAudioData\<close>, which is settled already.
  \<open>onmessage_resume\<close> is the rest: the handler reads the clock, schedules the buffer or
  logs the rejection, and runs the interruption block, lines 146 to 154.
\<close>

definition decode_failed :: "live_game \<Rightarrow> live_game" where
  "decode_failed c = c\<lparr>console := console c @ [''Audio decoding error'']\<rparr>"

definition interruption :: "live_server_message \<Rightarrow> live_game \<Rightarrow> live_game" where
  "interruption msg c = (if interrupted_of msg then interrupt c else c)"

datatype handler = Completed live_game | AwaitingDecode "dom_exception + audio_buffer"

definition onmessage_begin :: "live_server_message \<Rightarrow> live_game \<Rightarrow> handler" where
  "onmessage_begin msg c =
     (case base64Audio_of msg of
        None \<Rightarrow> Completed (interruption msg c)
      | Some base64Audio \<Rightarrow>
          if base64Audio \<noteq> [] \<and> outputContextRef c \<noteq> None \<and> outputAnalyserRef c \<noteq> None
          then
            (case base64ToArrayBuffer base64Audio of
               Inl e \<Rightarrow> Completed (interruption msg (decode_failed c))
             | Inr bytes \<Rightarrow> AwaitingDecode (decodeAudioData (new_Uint8Array bytes) 24000))
          else Completed (interruption msg c))"

definition onmessage_resume ::
  "rat \<Rightarrow> dom_exception + audio_buffer \<Rightarrow> live_server_message \<Rightarrow> live_game \<Rightarrow> live_game" where
  "onmessage_resume currentTime settled msg c =
     interruption msg
       (case settled of
          Inl e \<Rightarrow> decode_failed c
        | Inr audioBuffer \<Rightarrow> schedule currentTime audioBuffer c)"

text \<open>
  One invocation with nothing happening while it is suspended: the handler resumes in
  the microtask that follows its first half.
\<close>

definition onmessage :: "rat \<Rightarrow> live_server_message \<Rightarrow> live_game \<Rightarrow> live_game" where
  "onmessage currentTime msg c =
     (case onmessage_begin msg c of
        Completed c' \<Rightarrow> c'
      | AwaitingDecode settled \<Rightarrow> onmessage_resume currentTime settled msg c)"

subsection \<open>The event loop\<close>

text \<open>
  Callbacks run one at a time, but a suspended handler gives way: the library may call
  the handler of the next message before a suspended one resumes, when both calls are
  queued in the same task. Suspended handlers resume in the order in which they were
  suspended, since each awaits a promise that is settled already. The loop numbers the
  messages in the order of their arrival and remembers, for every source node, the
  message whose fragment it plays. \<open>Resumed\<close> carries the clock reading of the handler
  that resumes.
\<close>

record suspended_handler =
  settled :: "dom_exception + audio_buffer"
  message :: live_server_message
  arrival :: nat

record event_loop =
  game :: live_game
  suspended :: "suspended_handler list"
  arrived :: nat
  origin :: "(nat \<times> nat) list"

datatype event = Message live_server_message | Resumed rat | SourceEnded nat

fun handle :: "event \<Rightarrow> event_loop \<Rightarrow> event_loop" where
  "handle (Message msg) L =
     (case onmessage_begin msg (game L) of
        Completed c \<Rightarrow> L\<lparr>game := c, arrived := Suc (arrived L)\<rparr>
      | AwaitingDecode result \<Rightarrow>
          L\<lparr>suspended := suspended L
                 @ [\<lparr>settled = result, message = msg, arrival = arrived L\<rparr>],
            arrived := Suc (arrived L)\<rparr>)"
| "handle (Resumed currentTime) L =
     (case suspended L of
        [] \<Rightarrow> L
      | h # rest \<Rightarrow>
          L\<lparr>game := onmessage_resume currentTime (settled h) (message h) (game L),
            suspended := rest,
            origin := (case settled h of
                         Inl e \<Rightarrow> origin L
                       | Inr audioBuffer \<Rightarrow> (nodeCount (game L), arrival h) # origin L)\<rparr>)"
| "handle (SourceEnded source) L = L\<lparr>game := onended source (game L)\<rparr>"

fun run :: "event list \<Rightarrow> event_loop \<Rightarrow> event_loop" where
  "run [] L = L"
| "run (e # es) L = run es (handle e L)"

definition boot :: "live_game \<Rightarrow> event_loop" where
  "boot c = \<lparr>game = c, suspended = [], arrived = 0, origin = []\<rparr>"

text \<open>
  Two conditions on the loop, for a message number \<open>n\<close>. The handler of message \<open>n\<close>
  carries an interruption and is the next to resume; or nothing is left of the messages
  up to \<open>n\<close>: every suspended handler and every active source belongs to a later one.
\<close>

definition interruption_pending :: "nat \<Rightarrow> event_loop \<Rightarrow> bool" where
  "interruption_pending n L =
     (case suspended L of
        [] \<Rightarrow> False
      | h # rest \<Rightarrow>
          arrival h = n \<and> interrupted_of (message h) \<and> n < arrived L
          \<and> list_all (\<lambda>h'. n < arrival h') rest)"

definition later_only :: "nat \<Rightarrow> event_loop \<Rightarrow> bool" where
  "later_only n L =
     (n < arrived L
      \<and> list_all (\<lambda>h. n < arrival h) (suspended L)
      \<and> list_all (\<lambda>source. case map_of (origin L) source of None \<Rightarrow> False | Some k \<Rightarrow> n < k)
           (sourcesRef (game L)))"

text \<open>A sequence of decoded buffers, each with the clock reading at its scheduling.\<close>

fun schedule_all :: "(rat \<times> audio_buffer) list \<Rightarrow> live_game \<Rightarrow> live_game" where
  "schedule_all [] c = c"
| "schedule_all ((currentTime, audioBuffer) # rest) c =
     schedule_all rest (schedule currentTime audioBuffer c)"

text \<open>The clock never overtakes the cursor while the sequence is scheduled.\<close>

fun never_behind :: "(rat \<times> audio_buffer) list \<Rightarrow> live_game \<Rightarrow> bool" where
  "never_behind [] c = True"
| "never_behind ((currentTime, audioBuffer) # rest) c =
     (currentTime \<le> nextStartTimeRef c \<and> never_behind rest (schedule currentTime audioBuffer c))"

text \<open>
  The running sums of a list of durations from a first start time, each sum rounded as it
  is formed.
\<close>

fun running_starts :: "rat \<Rightarrow> rat list \<Rightarrow> rat list" where
  "running_starts s [] = []"
| "running_starts s (d # ds) = s # running_starts (double_add s d) ds"

subsection \<open>Teardown: the cleanup of the effect\<close>

text \<open>
  The cleanup is a sequence of statements with no \<^verbatim>\<open>try\<close>: an exception raised by one
  would skip the rest, so the result is a sum. What the platform calls can do:
  \<^verbatim>\<open>MediaStreamTrack.stop()\<close> ends the track and raises nothing.
  \<^verbatim>\<open>AudioContext.close()\<close> raises nothing either; it returns a promise, rejected with
  \<open>InvalidStateError\<close> when the context is closed already, and the cleanup drops that
  promise. The callback given to \<^verbatim>\<open>then\<close> closes the session in a later microtask. The
  refs are read with \<open>?.\<close>, so an empty ref skips its step.
\<close>

definition track_stop :: "track_state \<Rightarrow> dom_exception + track_state" where
  "track_stop t = Inr Ended"

fun stop_tracks :: "media_stream \<Rightarrow> dom_exception + media_stream" where
  "stop_tracks [] = Inr []"
| "stop_tracks (t # ts) =
     (case track_stop t of
        Inl e \<Rightarrow> Inl e
      | Inr t' \<Rightarrow> (case stop_tracks ts of Inl e \<Rightarrow> Inl e | Inr ts' \<Rightarrow> Inr (t' # ts')))"

definition context_close ::
  "audio_context \<Rightarrow> dom_exception + audio_context \<times> dom_exception list" where
  "context_close ctx =
     (if context_state ctx = ContextClosed then Inr (ctx, [InvalidStateError])
      else Inr (ctx\<lparr>context_state := ContextClosed\<rparr>, []))"

definition close_input :: "live_game \<Rightarrow> dom_exception + live_game" where
  "close_input c =
     (case inputContextRef c of
        None \<Rightarrow> Inr c
      | Some ctx \<Rightarrow>
          (case context_close ctx of
             Inl e \<Rightarrow> Inl e
           | Inr (ctx', es) \<Rightarrow>
               Inr (c\<lparr>inputContextRef := Some ctx', unhandled := unhandled c @ es\<rparr>)))"

definition close_output :: "live_game \<Rightarrow> dom_exception + live_game" where
  "close_output c =
     (case outputContextRef c of
        None \<Rightarrow> Inr c
      | Some ctx \<Rightarrow>
          (case context_close ctx of
             Inl e \<Rightarrow> Inl e
           | Inr (ctx', es) \<Rightarrow>
               Inr (c\<lparr>outputContextRef := Some ctx', unhandled := unhandled c @ es\<rparr>)))"

definition stop_stream :: "live_game \<Rightarrow> dom_exception + live_game" where
  "stop_stream c =
     (case streamRef c of
        None \<Rightarrow> Inr c
      | Some stream \<Rightarrow>
          (case stop_tracks stream of
             Inl e \<Rightarrow> Inl e
           | Inr stream' \<Rightarrow> Inr (c\<lparr>streamRef := Some stream'\<rparr>)))"

definition cleanup :: "live_game \<Rightarrow> dom_exception + live_game" where
  "cleanup c0 =
     (let c = c0\<lparr>isActive := False\<rparr>;
          c = session_then CloseSession c
      in case stop_stream c of
           Inl e \<Rightarrow> Inl e
         | Inr c \<Rightarrow>
             (case close_input c of
                Inl e \<Rightarrow> Inl e
              | Inr c \<Rightarrow> close_output c))"

text \<open>What the session promise of a state becomes when \<^verbatim>\<open>then\<close> is given the closing callback.\<close>

definition close_requested :: "session_promise \<Rightarrow> session_promise" where
  "close_requested p =
     (case p of
        Pending rs \<Rightarrow> Pending (rs @ [CloseSession])
      | Fulfilled s \<Rightarrow> Fulfilled (if close_throws s then s else s\<lparr>session_closed := True\<rparr>)
      | Rejected e \<Rightarrow> Rejected e)"

subsection \<open>Example inputs\<close>

definition audio_message :: "string \<Rightarrow> bool \<Rightarrow> live_server_message" where
  "audio_message a flag =
     \<lparr>serverContent = Some
        \<lparr>modelTurn = Some \<lparr>parts = Some [\<lparr>inlineData = Some \<lparr>inline_data = Some a\<rparr>\<rparr>]\<rparr>,
         interrupted = Some flag\<rparr>\<rparr>"

definition interruption_message :: live_server_message where
  "interruption_message = \<lparr>serverContent = Some \<lparr>modelTurn = None, interrupted = Some True\<rparr>\<rparr>"

definition granted :: environment where
  "granted = \<lparr>apiKey = True, getUserMedia = Inr [Live, Live]\<rparr>"

definition mounted :: live_game where
  "mounted = startSession granted first_render"

definition fresh_session :: session where
  "fresh_session = \<lparr>realtimeInputs = [], session_closed = False, close_throws = False\<rparr>"

definition silence :: "nat \<Rightarrow> audio_buffer" where
  "silence frames = \<lparr>channelData = replicate frames 0, sampleRate = 24000\<rparr>"

text \<open>The buffer that the fragment \<open>AEAAwA==\<close> decodes to.\<close>

definition two_frames :: audio_buffer where
  "two_frames = \<lparr>channelData = [1 / 2, - 1 / 2], sampleRate = 24000\<rparr>"

text \<open>
  The component while \<^verbatim>\<open>getUserMedia\<close> is pending, and after a cleanup that ran in that
  state.
\<close>

definition awaiting_media :: live_game where
  "awaiting_media =
     first_render\<lparr>isActive := True,
       inputContextRef := Some \<lparr>context_rate = 16000, context_state = Running\<rparr>,
       outputContextRef := Some \<lparr>context_rate = 24000, context_state = Running\<rparr>\<rparr>"

definition unmounted_early :: live_game where
  "unmounted_early =
     first_render\<lparr>isActive := False,
       inputContextRef := Some \<lparr>context_rate = 16000, context_state = ContextClosed\<rparr>,
       outputContextRef := Some \<lparr>context_rate = 24000, context_state = ContextClosed\<rparr>\<rparr>"

section \<open>The specification's reading of the codec\<close>

text \<open>
  The encoding as the specification words it: clamp to \<open>[-1, 1]\<close>, scale a negative value
  by \<open>32768\<close> and any other by \<open>32767\<close>, truncate. The result is an integer, not a
  16-bit word, so it cannot wrap.
\<close>

definition spec_clamp :: "sample \<Rightarrow> sample" where
  "spec_clamp x = (if x < - 1 then - 1 else if 1 < x then 1 else x)"

definition spec_pcm16 :: "sample \<Rightarrow> int" where
  "spec_pcm16 x =
     (let s = spec_clamp x
      in truncate_toward_zero (if s < 0 then s * 32768 else s * 32767))"

section \<open>Base64 transcoding\<close>

lemma b64_index_char: "n < 64 \<Longrightarrow> b64_index (b64_char n) = Some n"
  by (auto simp: b64_index_def b64_char_def Let_def)

lemma sextets_lt: "\<forall>x\<in>set bs. x < 256 \<Longrightarrow> \<forall>s\<in>set (sextets bs). s < 64"
  by (induction bs rule: sextets.induct) auto

lemma octets_sextets: "\<forall>x\<in>set bs. x < 256 \<Longrightarrow> octets (sextets bs) = bs"
  by (induction bs rule: sextets.induct) auto

lemma length_sextets:
  "length (sextets bs) = 4 * (length bs div 3) + (if length bs mod 3 = 0 then 0 else length bs mod 3 + 1)"
  by (induction bs rule: sextets.induct) auto

lemma length_sextets_mod4: "length (sextets bs) mod 4 \<in> {0, 2, 3}"
proof -
  have "length bs mod 3 = 0 \<or> length bs mod 3 = 1 \<or> length bs mod 3 = 2"
    by presburger
  then show ?thesis
    by (auto simp: length_sextets)
qed

lemma b64_index_plain:
  assumes "b64_index c = Some n"
  shows "\<not> is_ascii_whitespace c" and "c \<noteq> CHR ''=''"
  using assms by (auto simp: b64_index_def is_ascii_whitespace_def Let_def split: if_splits)

lemma b64_char_plain:
  assumes "n < 64"
  shows "\<not> is_ascii_whitespace (b64_char n)" and "b64_char n \<noteq> CHR ''=''"
  using b64_index_plain [OF b64_index_char [OF assms]] by blast+

lemma strip_padding_body:
  assumes plain: "\<forall>c\<in>set body. c \<noteq> CHR ''=''"
    and len: "length body mod 4 \<in> {0, 2, 3}"
  shows "strip_padding (body @ replicate ((4 - length body mod 4) mod 4) (CHR ''='')) = body"
proof -
  consider (zero) "length body mod 4 = 0" | (two) "length body mod 4 = 2"
    | (three) "length body mod 4 = 3"
    using len by auto
  then show ?thesis
  proof cases
    case zero
    show ?thesis
    proof (cases "body = []")
      case True
      then show ?thesis by (simp add: strip_padding_def)
    next
      case False
      then have l: "last body \<noteq> CHR ''=''"
        using plain by auto
      have "drop (length body - 2) body \<noteq> ''==''"
      proof
        assume "drop (length body - 2) body = ''==''"
        then have "last (drop (length body - 2) body) = CHR ''=''"
          by simp
        moreover have "length body - 2 < length body"
          using False by (cases body) auto
        ultimately show False
          using l by (simp add: last_drop)
      qed
      with zero l show ?thesis
        by (simp add: strip_padding_def)
    qed
  next
    case two
    then have "(length body + 2) mod 4 = 0"
      by presburger
    with two show ?thesis
      by (simp add: strip_padding_def numeral_2_eq_2)
  next
    case three
    then have m: "(length body + 1) mod 4 = 0" and ne: "body \<noteq> []"
      by (presburger, auto)
    from ne obtain xs x where body: "body = xs @ [x]"
      by (cases body rule: rev_cases) auto
    with plain have x: "x \<noteq> CHR ''=''"
      by simp
    have "strip_padding (xs @ [x, CHR ''='']) = xs @ [x]"
      using m x by (simp add: strip_padding_def body butlast_append)
    with three show ?thesis
      by (simp add: body)
  qed
qed

lemma atob_btoa: "atob (btoa s) = Inr s"
proof -
  define ns where "ns = map (of_char :: char \<Rightarrow> nat) s"
  define body where "body = map b64_char (sextets ns)"
  have small: "\<forall>x\<in>set ns. x < 256"
    by (auto simp: ns_def)
  then have six: "\<forall>v\<in>set (sextets ns). v < 64"
    by (rule sextets_lt)
  have plain: "\<forall>c\<in>set body. c \<noteq> CHR ''=''"
    using six by (auto simp: body_def b64_char_plain)
  have solid: "\<forall>c\<in>set body. \<not> is_ascii_whitespace c"
    using six by (auto simp: body_def b64_char_plain)
  have len: "length body mod 4 \<in> {0, 2, 3}"
    using length_sextets_mod4 [of ns] by (simp add: body_def)
  have btoa: "btoa s = body @ replicate ((4 - length body mod 4) mod 4) (CHR ''='')"
    by (simp add: btoa_def body_def ns_def Let_def)
  have "filter (\<lambda>c. \<not> is_ascii_whitespace c) (btoa s) = btoa s"
    using solid by (auto simp: btoa filter_id_conv is_ascii_whitespace_def)
  then have d: "strip_padding (filter (\<lambda>c. \<not> is_ascii_whitespace c) (btoa s)) = body"
    using strip_padding_body [OF plain len] by (simp add: btoa)
  have valid: "\<not> list_ex (\<lambda>c. b64_index c = None) body"
    using six by (auto simp: body_def list_ex_iff b64_index_char)
  have "map (\<lambda>c. the (b64_index c)) body = sextets ns"
    using six by (simp add: body_def b64_index_char map_idI)
  then have "map char_of (octets (map (\<lambda>c. the (b64_index c)) body)) = s"
    using octets_sextets [OF small] by (simp add: ns_def map_idI)
  moreover have "length body mod 4 \<noteq> 1"
    using len by auto
  ultimately show ?thesis
    using valid by (simp add: atob_def d Let_def)
qed

lemma byte_code: "unat (b :: byte) mod 256 = unat b"
  using unsigned_less [of b, where 'a = nat] by simp

lemma base64_roundtrip: "base64ToArrayBuffer (arrayBufferToBase64 buffer) = Inr buffer"
proof -
  have "map (\<lambda>c. word_of_nat (of_char c)) (map (\<lambda>b. char_of (unat b)) buffer) = buffer"
    by (simp add: map_idI byte_code)
  then show ?thesis
    by (simp add: base64ToArrayBuffer_def arrayBufferToBase64_def atob_btoa)
qed

lemma btoa_text_safe: "list_all (\<lambda>c. c = CHR ''='' \<or> b64_index c \<noteq> None) (btoa s)"
proof -
  have "\<forall>v\<in>set (sextets (map of_char s)). v < 64"
    by (rule sextets_lt) auto
  then show ?thesis
    by (auto simp: btoa_def Let_def list_all_iff b64_index_char)
qed

text \<open>
  Claim C9. Encoding any byte sequence, the empty one included, with
  \<^verbatim>\<open>arrayBufferToBase64\<close> and decoding the text with \<^verbatim>\<open>base64ToArrayBuffer\<close> gives the
  same bytes back, and the text consists of base64 letters and padding only.
\<close>

theorem base64_exact_round_trip:
  "base64ToArrayBuffer (arrayBufferToBase64 b) = Inr b
   \<and> list_all (\<lambda>c. c = CHR ''='' \<or> b64_index c \<noteq> None) (arrayBufferToBase64 b)"
proof -
  have "map (\<lambda>c. word_of_nat (of_char c)) (map (\<lambda>v. char_of (unat v)) b) = b"
    by (simp add: map_idI byte_code)
  then have "base64ToArrayBuffer (arrayBufferToBase64 b) = Inr b"
    by (simp add: base64ToArrayBuffer_def arrayBufferToBase64_def atob_btoa)
  moreover have "list_all (\<lambda>c. c = CHR ''='' \<or> b64_index c \<noteq> None) (arrayBufferToBase64 b)"
    unfolding arrayBufferToBase64_def by (rule btoa_text_safe)
  ultimately show ?thesis
    by (rule conjI)
qed

theorem base64_exact_round_trip_witness:
  "arrayBufferToBase64 [] = [] \<and> base64ToArrayBuffer [] = Inr []
   \<and> arrayBufferToBase64 [77, 97] = ''TWE=''
   \<and> base64ToArrayBuffer ''TWE='' = Inr [77, 97]"
proof -
  have e: "arrayBufferToBase64 [] = []"
    by (simp add: arrayBufferToBase64_def btoa_def)
  have m: "arrayBufferToBase64 [77, 97] = ''TWE=''"
    by code_simp
  from base64_exact_round_trip [of "[]"] base64_exact_round_trip [of "[77, 97]"]
  show ?thesis
    by (simp add: e m)
qed

section \<open>PCM16 codec\<close>

subsection \<open>Bytes and values\<close>

lemma int16_bytes_elements: "int16_elements (concat (map int16_bytes ws)) = ws"
proof (induction ws)
  case Nil
  then show ?case by simp
next
  case (Cons w ws)
  have "word_cat (ucast (drop_bit 8 w) :: byte) (ucast w :: byte) = w"
    by (rule bit_word_eqI) (auto simp: bit_simps)
  with Cons show ?case
    by (simp add: int16_bytes_def)
qed

lemma length_int16_bytes: "length (concat (map int16_bytes ws)) = 2 * length ws"
  by (induction ws) (simp_all add: int16_bytes_def)

lemma spec_clamp_range: "- 1 \<le> spec_clamp x \<and> spec_clamp x \<le> 1"
  by (simp add: spec_clamp_def)

lemma spec_clamp_max_min: "max (- 1) (min 1 x) = spec_clamp x"
  by (simp add: spec_clamp_def max_def min_def)

lemma spec_pcm16_range: "- 32768 \<le> spec_pcm16 x \<and> spec_pcm16 x \<le> 32767"
proof -
  define s where "s = spec_clamp x"
  have r: "- 1 \<le> s" "s \<le> 1"
    using spec_clamp_range [of x] by (simp_all add: s_def)
  show ?thesis
  proof (cases "s < 0")
    case True
    have "- 32768 \<le> s * 32768" "s * 32768 < 0"
      using r True by simp_all
    then have "- 32768 \<le> \<lceil>s * 32768\<rceil>" "\<lceil>s * 32768\<rceil> \<le> 0"
      by (simp_all add: le_ceiling_iff ceiling_le_iff)
    with True show ?thesis
      by (simp add: spec_pcm16_def truncate_toward_zero_def s_def [symmetric])
  next
    case False
    then have "0 \<le> s * 32767" "s * 32767 \<le> 32767"
      using r by simp_all
    then have "0 \<le> \<lfloor>s * 32767\<rfloor>" "\<lfloor>s * 32767\<rfloor> \<le> 32767"
      by (simp_all add: le_floor_iff floor_le_iff)
    with False show ?thesis
      by (simp add: spec_pcm16_def truncate_toward_zero_def s_def [symmetric])
  qed
qed

lemma sint_encode_sample: "sint (encode_sample x) = spec_pcm16 x"
proof -
  have "encode_sample x = word_of_int (spec_pcm16 x)"
    by (simp add: encode_sample_def spec_pcm16_def ToInt16_def spec_clamp_max_min Let_def)
  moreover have "sint (word_of_int (spec_pcm16 x) :: int16) = spec_pcm16 x"
    using spec_pcm16_range [of x]
    by (simp add: sint_sbintrunc' signed_take_bit_int_eq_self)
  ultimately show ?thesis
    by simp
qed

subsection \<open>Decoding\<close>

lemma length_int16_elements: "even (length data) \<Longrightarrow> length (int16_elements data) = length data div 2"
  by (induction data rule: int16_elements.induct) auto

lemma decodeAudioData_24000:
  "decodeAudioData data 24000
   = (if odd (length (array_buffer data)) then Inl RangeError
      else if array_buffer data = [] then Inl NotSupportedError
      else Inr \<lparr>channelData = map (\<lambda>v. of_int (sint v) / 32768) (int16_elements (array_buffer data)),
                sampleRate = 24000\<rparr>)"
proof -
  have "int16_elements (array_buffer data) \<noteq> []"
    if "even (length (array_buffer data))" and "array_buffer data \<noteq> []"
    using that by (cases "array_buffer data" rule: int16_elements.cases) auto
  moreover have "int16_elements [] = []"
    by simp
  ultimately show ?thesis
    by (simp add: decodeAudioData_def new_AudioContext_def supported_rate_def new_Int16Array_def
        createBuffer_def)
qed

text \<open>
  Claim C10, amended. The input is a view of a whole buffer, \<^verbatim>\<open>new Uint8Array(buffer)\<close>, and
  the rate is \<open>24000\<close>, as at both call sites. If the byte length is odd, the promise is
  rejected with the \<open>RangeError\<close> of the \<^verbatim>\<open>Int16Array\<close> view; if it is \<open>2n\<close> with \<open>n\<close> at
  least one, the result has exactly \<open>n\<close> samples; if it is zero, the promise is rejected
  by \<^verbatim>\<open>createBuffer\<close>, which takes no zero frame count.
\<close>

theorem decodeAudioData_byte_length:
  "byteLength (new_Uint8Array bytes) = length bytes
   \<and> (if odd (length bytes)
      then decodeAudioData (new_Uint8Array bytes) 24000 = Inl RangeError
      else if bytes = []
      then decodeAudioData (new_Uint8Array bytes) 24000 = Inl NotSupportedError
      else \<exists>buffer. decodeAudioData (new_Uint8Array bytes) 24000 = Inr buffer
             \<and> length (channelData buffer) = length bytes div 2
             \<and> sampleRate buffer = 24000)"
proof -
  have view: "array_buffer (new_Uint8Array bytes) = bytes"
    "byteLength (new_Uint8Array bytes) = length bytes"
    by (simp_all add: new_Uint8Array_def)
  show ?thesis
    unfolding decodeAudioData_24000 view by (simp add: length_int16_elements)
qed

theorem decodeAudioData_byte_length_witness:
  "decodeAudioData (new_Uint8Array [1, 2, 3]) 24000 = Inl RangeError
   \<and> decodeAudioData (new_Uint8Array []) 24000 = Inl NotSupportedError
   \<and> decodeAudioData (new_Uint8Array [0, 64, 0, 192]) 24000
       = Inr \<lparr>channelData = [1 / 2, - 1 / 2], sampleRate = 24000\<rparr>
   \<and> length [1 / 2, - 1 / 2 :: sample] = length [0, 64, 0, 192 :: byte] div 2"
proof -
  have "decodeAudioData (new_Uint8Array [0, 64, 0, 192]) 24000
        = Inr \<lparr>channelData = [1 / 2, - 1 / 2], sampleRate = 24000\<rparr>"
    by (simp add: decodeAudioData_24000 new_Uint8Array_def word_cat_eq)
  with decodeAudioData_byte_length [of "[1, 2, 3]"]
    decodeAudioData_byte_length [of "[]"]
    decodeAudioData_byte_length [of "[0, 64, 0, 192]"]
  show ?thesis
    by simp
qed

text \<open>
  The claim as stated asks for \<open>n\<close> samples at every even length \<open>2n\<close>. At \<open>n = 0\<close> the
  promise is rejected.
\<close>

theorem decodeAudioData_length_counterexample:
  "byteLength (new_Uint8Array []) = 2 * 0
   \<and> decodeAudioData (new_Uint8Array []) 24000 = Inl NotSupportedError"
  by (simp add: decodeAudioData_24000 new_Uint8Array_def)

subsection \<open>Encoding\<close>

lemma new_Int16Array_bytes: "new_Int16Array (concat (map int16_bytes ws)) = Inr ws"
  by (simp add: new_Int16Array_def length_int16_bytes int16_bytes_elements)

lemma blob_parts_createPCM16Blob:
  "blob_parts (blob (createPCM16Blob xs)) = map encode_sample xs"
  by (simp add: createPCM16Blob_def Let_def)

lemma bytes_of_createPCM16Blob:
  "base64ToArrayBuffer (base64 (createPCM16Blob xs))
   = Inr (concat (map int16_bytes (map encode_sample xs)))"
  by (simp add: createPCM16Blob_def Let_def base64_roundtrip new_Uint8Array_def)

text \<open>
  Claim C5. For every input, the signed value of each encoded element is the integer the
  specification describes (clamp, scale by \<open>32768\<close> or \<open>32767\<close>, truncate), with no
  wrap-around by the conversion to 16 bits; these integers lie in \<open>[-32768, 32767]\<close>;
  the base64 text carries exactly these elements; and a sample of at least \<open>1\<close> or at
  most \<open>-1\<close> encodes as the end of the range.
\<close>

theorem createPCM16Blob_clamps:
  "map sint (blob_parts (blob (createPCM16Blob xs))) = map spec_pcm16 xs
   \<and> list_all (\<lambda>v. - 32768 \<le> v \<and> v \<le> 32767) (map spec_pcm16 xs)
   \<and> (\<exists>bytes. base64ToArrayBuffer (base64 (createPCM16Blob xs)) = Inr bytes
         \<and> new_Int16Array bytes = Inr (blob_parts (blob (createPCM16Blob xs))))
   \<and> spec_pcm16 (max 1 x) = 32767 \<and> spec_pcm16 (min (- 1) x) = - 32768"
proof -
  have ints: "map sint (blob_parts (blob (createPCM16Blob xs))) = map spec_pcm16 xs"
    by (simp add: blob_parts_createPCM16Blob sint_encode_sample)
  have bounds: "list_all (\<lambda>v. - 32768 \<le> v \<and> v \<le> 32767) (map spec_pcm16 xs)"
    by (simp add: list_all_iff spec_pcm16_range)
  have "new_Int16Array (concat (map int16_bytes (map encode_sample xs)))
        = Inr (map encode_sample xs)"
    by (rule new_Int16Array_bytes)
  then have wire: "\<exists>bytes. base64ToArrayBuffer (base64 (createPCM16Blob xs)) = Inr bytes
         \<and> new_Int16Array bytes = Inr (blob_parts (blob (createPCM16Blob xs)))"
    by (simp add: bytes_of_createPCM16Blob blob_parts_createPCM16Blob)
  have high: "spec_pcm16 (max 1 x) = 32767"
    by (simp add: spec_pcm16_def spec_clamp_def truncate_toward_zero_def max_def)
  have low: "spec_pcm16 (min (- 1) x) = - 32768"
    by (simp add: spec_pcm16_def spec_clamp_def truncate_toward_zero_def min_def)
  from ints bounds wire high low show ?thesis
    by blast
qed

theorem createPCM16Blob_clamps_witness:
  "map sint (blob_parts (blob (createPCM16Blob [2, - 3, 1 / 2, - 1 / 2])))
   = [32767, - 32768, 16383, - 16384]"
proof -
  have "spec_pcm16 2 = 32767" "spec_pcm16 (- 3) = - 32768"
    using createPCM16Blob_clamps [of "[]" 2] createPCM16Blob_clamps [of "[]" "- 3"]
    by simp_all
  moreover have "spec_pcm16 (1 / 2) = 16383" "spec_pcm16 (- 1 / 2) = - 16384"
    by code_simp+
  ultimately show ?thesis
    using createPCM16Blob_clamps [of "[2, - 3, 1 / 2, - 1 / 2]" 0] by simp
qed

subsection \<open>Round trip\<close>

lemma spec_clamp_unit: "- 1 \<le> x \<Longrightarrow> x \<le> 1 \<Longrightarrow> spec_clamp x = x"
  by (simp add: spec_clamp_def)

lemma decoded_sample_error:
  assumes "- 1 \<le> x" and "x \<le> 1"
  defines "y \<equiv> of_int (spec_pcm16 x) / 32768"
  shows "if x < 0 then x \<le> y \<and> y - x < 1 / 32768 else y \<le> x \<and> x - y < (1 + x) / 32768"
proof (cases "x < 0")
  case True
  define c :: rat where "c = of_int \<lceil>x * 32768\<rceil>"
  have v: "y = c / 32768"
    using assms True
    by (simp add: y_def c_def spec_pcm16_def spec_clamp_unit truncate_toward_zero_def)
  have "x * 32768 \<le> c" "c < x * 32768 + 1"
    unfolding c_def by linarith+
  then have "x \<le> c / 32768" and "c / 32768 - x < 1 / 32768"
    by linarith+
  with True show ?thesis
    by (simp add: v)
next
  case False
  define f :: rat where "f = of_int \<lfloor>x * 32767\<rfloor>"
  have v: "y = f / 32768"
    using assms False
    by (simp add: y_def f_def spec_pcm16_def spec_clamp_unit truncate_toward_zero_def)
  have "f \<le> x * 32767" "x * 32767 - 1 < f"
    unfolding f_def by linarith+
  with False have le: "f / 32768 \<le> x" and "x * 32768 - f < 1 + x"
    by linarith+
  then have "(x * 32768 - f) / 32768 < (1 + x) / 32768"
    by (simp add: divide_strict_right_mono)
  then have "x - f / 32768 < (1 + x) / 32768"
    by (simp add: diff_divide_distrib)
  with False le show ?thesis
    by (simp add: v)
qed

lemma signed_encode_sample: "(signed (encode_sample x) :: rat) = of_int (spec_pcm16 x)"
proof -
  have "(signed (encode_sample x) :: rat) = of_int (sint (encode_sample x))"
    by (rule of_int_sint [symmetric])
  then show ?thesis
    by (simp only: sint_encode_sample)
qed

lemma decodeAudioData_pcm16:
  assumes "ws \<noteq> []"
  shows "decodeAudioData (new_Uint8Array (concat (map int16_bytes ws))) 24000
         = Inr \<lparr>channelData = map (\<lambda>v. of_int (sint v) / 32768) ws, sampleRate = 24000\<rparr>"
  using assms
  by (simp add: decodeAudioData_def new_AudioContext_def supported_rate_def new_Uint8Array_def
      new_Int16Array_bytes createBuffer_def)

text \<open>
  Claim C4, amended. For every non-empty sample sequence with values in \<open>[-1, 1]\<close>, the
  base64 text of \<^verbatim>\<open>createPCM16Blob\<close> decodes to bytes that \<^verbatim>\<open>decodeAudioData\<close>, at its
  rate of \<open>24000\<close>, turns into a buffer of the same length, and every decoded sample is
  within two quantization steps of the original: a negative sample is met from above
  within \<open>1/32768\<close>, any other sample \<open>x\<close> from below within \<open>(1 + x)/32768\<close>.
\<close>

theorem pcm16_round_trip:
  assumes "xs \<noteq> []" and "list_all (\<lambda>x. - 1 \<le> x \<and> x \<le> 1) xs"
  shows "\<exists>bytes buffer.
           base64ToArrayBuffer (base64 (createPCM16Blob xs)) = Inr bytes
           \<and> decodeAudioData (new_Uint8Array bytes) 24000 = Inr buffer
           \<and> length (channelData buffer) = length xs
           \<and> list_all2 (\<lambda>x y. \<bar>y - x\<bar> < 2 / 32768
                               \<and> (if x < 0 then x \<le> y \<and> y - x < 1 / 32768
                                   else y \<le> x \<and> x - y < (1 + x) / 32768))
                xs (channelData buffer)"
proof -
  define ys where "ys = map (\<lambda>x. of_int (spec_pcm16 x) / 32768 :: rat) xs"
  have ne: "map encode_sample xs \<noteq> []"
    using assms(1) by simp
  have "decodeAudioData (new_Uint8Array (concat (map int16_bytes (map encode_sample xs)))) 24000
        = Inr \<lparr>channelData = ys, sampleRate = 24000\<rparr>"
    unfolding decodeAudioData_pcm16 [OF ne] by (simp add: ys_def signed_encode_sample)
  moreover have "length ys = length xs"
    by (simp add: ys_def)
  moreover have "list_all2 (\<lambda>x y. \<bar>y - x\<bar> < 2 / 32768
                               \<and> (if x < 0 then x \<le> y \<and> y - x < 1 / 32768
                                   else y \<le> x \<and> x - y < (1 + x) / 32768)) xs ys"
    unfolding ys_def list_all2_map2
  proof (rule list_all2_same [THEN iffD2], rule ballI)
    fix x assume "x \<in> set xs"
    with assms(2) have r: "- 1 \<le> x" "x \<le> 1"
      by (simp_all add: list_all_iff)
    from decoded_sample_error [OF r] r
    show "\<bar>of_int (spec_pcm16 x) / 32768 - x\<bar> < 2 / 32768
          \<and> (if x < 0 then x \<le> of_int (spec_pcm16 x) / 32768
                 \<and> of_int (spec_pcm16 x) / 32768 - x < 1 / 32768
              else of_int (spec_pcm16 x) / 32768 \<le> x
                 \<and> x - of_int (spec_pcm16 x) / 32768 < (1 + x) / 32768)"
      by (auto split: if_splits)
  qed
  ultimately show ?thesis
    by (simp add: bytes_of_createPCM16Blob)
qed

theorem pcm16_round_trip_witness:
  "[1 / 2, - 1 / 2, 1] \<noteq> ([] :: sample list)
   \<and> list_all (\<lambda>x. - 1 \<le> x \<and> x \<le> 1) [1 / 2, - 1 / 2, 1 :: sample]
   \<and> (\<exists>bytes buffer.
           base64ToArrayBuffer (base64 (createPCM16Blob [1 / 2, - 1 / 2, 1])) = Inr bytes
           \<and> decodeAudioData (new_Uint8Array bytes) 24000 = Inr buffer
           \<and> length (channelData buffer) = length [1 / 2, - 1 / 2, 1 :: sample]
           \<and> list_all2 (\<lambda>x y. \<bar>y - x\<bar> < 2 / 32768
                               \<and> (if x < 0 then x \<le> y \<and> y - x < 1 / 32768
                                   else y \<le> x \<and> x - y < (1 + x) / 32768))
                [1 / 2, - 1 / 2, 1] (channelData buffer))"
proof -
  have h: "[1 / 2, - 1 / 2, 1] \<noteq> ([] :: sample list)"
    "list_all (\<lambda>x. - 1 \<le> x \<and> x \<le> 1) [1 / 2, - 1 / 2, 1 :: sample]"
    by simp_all
  from h pcm16_round_trip [OF h] show ?thesis
    by blast
qed

text \<open>
  The claim as stated bounds the error by one step of \<open>1/32768\<close> and covers the empty
  sequence. The sample \<open>65535/65536\<close> comes back as \<open>16383/16384\<close>, one and a half steps
  away, and the encoding of the empty sequence is rejected by the decoder.
\<close>

theorem pcm16_round_trip_counterexample:
  "base64ToArrayBuffer (base64 (createPCM16Blob [65535 / 65536])) = Inr [254, 127]
   \<and> decodeAudioData (new_Uint8Array [254, 127]) 24000
       = Inr \<lparr>channelData = [16383 / 16384], sampleRate = 24000\<rparr>
   \<and> \<not> \<bar>16383 / 16384 - 65535 / 65536\<bar> \<le> (1 / 32768 :: rat)
   \<and> base64ToArrayBuffer (base64 (createPCM16Blob [])) = Inr []
   \<and> decodeAudioData (new_Uint8Array []) 24000 = Inl NotSupportedError"
proof -
  have "truncate_toward_zero (65535 / 65536 * 32767) = 32766"
    by code_simp
  then have "encode_sample (65535 / 65536) = 32766"
    by (simp add: encode_sample_def ToInt16_def)
  then have "base64ToArrayBuffer (base64 (createPCM16Blob [65535 / 65536])) = Inr [254, 127]"
    by (simp add: bytes_of_createPCM16Blob int16_bytes_def)
  moreover have "decodeAudioData (new_Uint8Array [254, 127]) 24000
       = Inr \<lparr>channelData = [16383 / 16384], sampleRate = 24000\<rparr>"
    by (simp add: decodeAudioData_24000 new_Uint8Array_def word_cat_eq)
  moreover have "\<not> \<bar>16383 / 16384 - 65535 / 65536\<bar> \<le> (1 / 32768 :: rat)"
    by simp
  moreover have "base64ToArrayBuffer (base64 (createPCM16Blob [])) = Inr []"
    by (simp add: bytes_of_createPCM16Blob)
  moreover have "decodeAudioData (new_Uint8Array []) 24000 = Inl NotSupportedError"
    by (simp add: decodeAudioData_24000 new_Uint8Array_def)
  ultimately show ?thesis
    by blast
qed

section \<open>Rounding to a double\<close>

text \<open>
  \<open>exponent\<close> finds the binade of a positive number; rounding is monotone, leaves a
  double as it is, and moves a number by at most half a unit in its last place.
\<close>

lemma exponent_ge_one:
  assumes "1 \<le> a"
  shows "2 powi exponent a \<le> a" and "a < 2 powi (exponent a + 1)"
proof -
  define n where "n = nat \<lfloor>a\<rfloor>"
  define k where "k = floorlog 2 n"
  have n: "0 < n" "of_nat n \<le> a" "a < of_nat n + 1"
    using assms by (simp_all add: n_def) linarith+
  from floorlog_bounds [of n 2] n(1) have b: "2 ^ (k - 1) \<le> n" "n < 2 ^ k"
    by (simp_all add: k_def)
  have k: "0 < k"
    using n(1) by (simp add: k_def floorlog_def)
  have e: "exponent a = int (k - 1)"
    using assms k by (simp add: exponent_def k_def n_def)
  have "(2 :: rat) ^ (k - 1) \<le> of_nat n"
    using b(1) by (metis of_nat_le_iff of_nat_numeral of_nat_power)
  then have "2 ^ (k - 1) \<le> a"
    using n(2) by (rule order_trans)
  then show "2 powi exponent a \<le> a"
    by (simp add: e)
  have "Suc n \<le> 2 ^ k"
    using b(2) by simp
  then have "(of_nat (Suc n) :: rat) \<le> 2 ^ k"
    by (metis of_nat_le_iff of_nat_numeral of_nat_power)
  moreover have "exponent a + 1 = int k"
    using k by (simp add: e)
  ultimately show "a < 2 powi (exponent a + 1)"
    using n(3) by simp
qed

lemma exponent_lt_one:
  assumes "0 < a" and "a < 1"
  shows "2 powi exponent a \<le> a" and "a < 2 powi (exponent a + 1)"
proof -
  define y where "y = 1 / a"
  define m where "m = nat \<lceil>y\<rceil> - 1"
  define k where "k = floorlog 2 m"
  have y: "1 < y"
    using assms by (simp add: y_def)
  then have c: "2 \<le> \<lceil>y\<rceil>"
    by linarith
  have m: "0 < m" "of_nat m < y" "y \<le> of_nat m + 1"
    using c by (simp_all add: m_def) linarith+
  from floorlog_bounds [of m 2] m(1) have b: "2 ^ (k - 1) \<le> m" "m < 2 ^ k"
    by (simp_all add: k_def)
  have k: "0 < k"
    using m(1) by (simp add: k_def floorlog_def)
  have e: "exponent a = - int k"
    using assms by (simp add: exponent_def k_def m_def y_def)
  have "Suc m \<le> 2 ^ k"
    using b(2) by simp
  then have "(of_nat (Suc m) :: rat) \<le> 2 ^ k"
    by (metis of_nat_le_iff of_nat_numeral of_nat_power)
  with m(3) have "y \<le> 2 ^ k"
    by simp
  then have "1 / 2 ^ k \<le> a"
    using assms(1) by (simp add: y_def field_simps)
  then show "2 powi exponent a \<le> a"
    by (simp add: e power_int_minus field_simps)
  have "(2 :: rat) ^ (k - 1) \<le> of_nat m"
    using b(1) by (metis of_nat_le_iff of_nat_numeral of_nat_power)
  then have "2 ^ (k - 1) < y"
    using m(2) by (rule le_less_trans)
  then have "a < 1 / 2 ^ (k - 1)"
    using assms(1) by (simp add: y_def field_simps)
  moreover have "exponent a + 1 = - int (k - 1)"
    using k by (simp add: e)
  ultimately show "a < 2 powi (exponent a + 1)"
    by (simp add: power_int_minus field_simps)
qed

lemma exponent_bounds:
  assumes "0 < a"
  shows "2 powi exponent a \<le> a" and "a < 2 powi (exponent a + 1)"
  using assms exponent_ge_one [of a] exponent_lt_one [of a] by (cases "1 \<le> a"; simp)+

lemma exponent_unique:
  assumes "2 powi e \<le> a" and "a < 2 powi (e + 1)"
  shows "exponent a = e"
proof -
  have "(0 :: rat) < 2 powi e"
    by (rule zero_less_power_int) simp
  then have pos: "0 < a"
    using assms(1) by (rule less_le_trans)
  have "\<not> e + 1 \<le> exponent a"
  proof
    assume "e + 1 \<le> exponent a"
    then have "(2 :: rat) powi (e + 1) \<le> 2 powi exponent a"
      by (intro power_int_increasing) simp_all
    with exponent_bounds(1) [OF pos] assms(2) show False
      by simp
  qed
  moreover have "\<not> exponent a + 1 \<le> e"
  proof
    assume "exponent a + 1 \<le> e"
    then have "(2 :: rat) powi (exponent a + 1) \<le> 2 powi e"
      by (intro power_int_increasing) simp_all
    with exponent_bounds(2) [OF pos] assms(1) show False
      by simp
  qed
  ultimately show ?thesis
    by simp
qed

lemma round_even_error: "\<bar>of_int (round_even m) - m\<bar> \<le> 1 / 2"
proof -
  have "of_int \<lfloor>m\<rfloor> \<le> m" "m < of_int \<lfloor>m\<rfloor> + 1"
    by linarith+
  then show ?thesis
    by (auto simp: round_even_def Let_def)
qed

lemma round_even_of_int: "round_even (of_int k) = k"
  by (simp add: round_even_def)

lemma round_even_mono:
  assumes "m \<le> m'"
  shows "round_even m \<le> round_even m'"
proof (cases "\<lfloor>m\<rfloor> = \<lfloor>m'\<rfloor>")
  case True
  with assms show ?thesis
    by (auto simp: round_even_def Let_def)
next
  case False
  with assms have "\<lfloor>m\<rfloor> + 1 \<le> \<lfloor>m'\<rfloor>"
    using floor_mono [of m m'] by linarith
  moreover have "round_even m \<le> \<lfloor>m\<rfloor> + 1"
    by (simp add: round_even_def Let_def)
  moreover have "\<lfloor>m'\<rfloor> \<le> round_even m'"
    by (simp add: round_even_def Let_def)
  ultimately show ?thesis
    by linarith
qed

lemma round_even_ge: "of_int k \<le> m \<Longrightarrow> k \<le> round_even m"
  using round_even_mono [of "of_int k" m] by (simp add: round_even_of_int)

lemma round_even_le: "m \<le> of_int k \<Longrightarrow> round_even m \<le> k"
  using round_even_mono [of m "of_int k"] by (simp add: round_even_of_int)

lemma exponent_mono:
  assumes "0 < a" and "a \<le> b"
  shows "exponent a \<le> exponent b"
proof (rule ccontr)
  assume "\<not> exponent a \<le> exponent b"
  then have "exponent b + 1 \<le> exponent a"
    by simp
  then have "(2 :: rat) powi (exponent b + 1) \<le> 2 powi exponent a"
    by (intro power_int_increasing) simp_all
  moreover have "0 < b"
    using assms by simp
  ultimately show False
    using exponent_bounds(1) [OF assms(1)] exponent_bounds(2) [of b] assms(2) by simp
qed

lemma ulp_pos: "0 < ulp a"
  by (simp add: ulp_def)

lemma ulp_positive: "0 < a \<Longrightarrow> ulp a = 2 powi (max (exponent a) (- 1022) - 52)"
  by (simp add: ulp_def)

lemma ulp_minus: "ulp (- x) = ulp x"
  by (simp add: ulp_def)

lemma double_of_pos: "0 < a \<Longrightarrow> double_of a = of_int (round_even (a / ulp a)) * ulp a"
  by (simp add: double_of_def Let_def)

lemma double_of_minus: "double_of (- x) = - double_of x"
  by (simp add: double_of_def Let_def sgn_minus ulp_minus)

lemma double_of_zero: "double_of 0 = 0"
  by (simp add: double_of_def)

lemma powi_split: "(2 :: rat) powi e = 2 ^ 52 * 2 powi (e - 52)"
proof -
  have "(2 :: rat) powi (52 + (e - 52)) = 2 powi 52 * 2 powi (e - 52)"
    by (rule power_int_add) simp
  then show ?thesis
    by simp
qed

lemma powi_split': "(2 :: rat) powi (e + 1) = 2 ^ 53 * 2 powi (e - 52)"
proof -
  have "(2 :: rat) powi (53 + (e - 52)) = 2 powi 53 * 2 powi (e - 52)"
    by (rule power_int_add) simp
  then show ?thesis
    by (simp add: add.commute)
qed

lemma ulp_binade:
  assumes "0 < a"
  shows "2 powi max (exponent a) (- 1022) = 2 ^ 52 * ulp a"
    and "2 powi (max (exponent a) (- 1022) + 1) = 2 ^ 53 * ulp a"
  unfolding ulp_positive [OF assms] by (rule powi_split, rule powi_split')

lemma mantissa_less:
  assumes "0 < a"
  shows "a / ulp a < 2 ^ 53"
proof -
  have "(2 :: rat) powi (exponent a + 1) \<le> 2 powi (max (exponent a) (- 1022) + 1)"
    by (intro power_int_increasing) simp_all
  with exponent_bounds(2) [OF assms] have "a < 2 ^ 53 * ulp a"
    by (simp add: ulp_binade [OF assms])
  then show ?thesis
    using ulp_pos [of a] by (simp add: pos_divide_less_eq)
qed

lemma mantissa_ge:
  assumes "0 < a" and "- 1022 \<le> exponent a"
  shows "2 ^ 52 \<le> a / ulp a"
proof -
  have "max (exponent a) (- 1022) = exponent a"
    using assms(2) by simp
  with exponent_bounds(1) [OF assms(1)] ulp_binade(1) [OF assms(1)] have "2 ^ 52 * ulp a \<le> a"
    by simp
  then show ?thesis
    using ulp_pos [of a] by (simp add: pos_le_divide_eq)
qed

lemma of_int_pow2: "(of_int (2 ^ n) :: rat) = 2 ^ n"
  by simp

lemma double_of_le_binade:
  assumes "0 < a"
  shows "double_of a \<le> 2 powi (max (exponent a) (- 1022) + 1)"
proof -
  have "a / ulp a \<le> of_int (2 ^ 53)"
    using mantissa_less [OF assms] by simp
  then have "round_even (a / ulp a) \<le> 2 ^ 53"
    by (rule round_even_le)
  then have "(of_int (round_even (a / ulp a)) :: rat) \<le> of_int (2 ^ 53)"
    by (simp only: of_int_le_iff)
  then have "of_int (round_even (a / ulp a)) * ulp a \<le> 2 ^ 53 * ulp a"
    using ulp_pos [of a] by (simp add: mult_right_mono)
  then show ?thesis
    by (simp add: double_of_pos [OF assms] ulp_binade [OF assms])
qed

lemma double_of_ge_binade:
  assumes "0 < a" and "- 1022 \<le> exponent a"
  shows "2 powi exponent a \<le> double_of a"
proof -
  have "of_int (2 ^ 52) \<le> a / ulp a"
    using mantissa_ge [OF assms] by simp
  then have "2 ^ 52 \<le> round_even (a / ulp a)"
    by (rule round_even_ge)
  then have "(of_int (2 ^ 52) :: rat) \<le> of_int (round_even (a / ulp a))"
    by (simp only: of_int_le_iff)
  then have "2 ^ 52 * ulp a \<le> of_int (round_even (a / ulp a)) * ulp a"
    using ulp_pos [of a] by (simp add: mult_right_mono)
  moreover have "max (exponent a) (- 1022) = exponent a"
    using assms(2) by simp
  ultimately show ?thesis
    using ulp_binade(1) [OF assms(1)] by (simp add: double_of_pos [OF assms(1)])
qed

lemma double_of_nonneg:
  assumes "0 \<le> x"
  shows "0 \<le> double_of x"
proof (cases "x = 0")
  case True
  then show ?thesis by (simp add: double_of_zero)
next
  case False
  with assms have pos: "0 < x"
    by simp
  then have "of_int 0 \<le> x / ulp x"
    using ulp_pos [of x] by simp
  then have "0 \<le> round_even (x / ulp x)"
    by (rule round_even_ge)
  then show ?thesis
    using ulp_pos [of x] by (simp add: double_of_pos [OF pos])
qed

lemma double_of_mono_pos:
  assumes "0 < a" and "a \<le> b"
  shows "double_of a \<le> double_of b"
proof -
  have b: "0 < b"
    using assms by simp
  define ea where "ea = max (exponent a) (- 1022)"
  define eb where "eb = max (exponent b) (- 1022)"
  have le: "ea \<le> eb"
    using exponent_mono [OF assms] by (simp add: ea_def eb_def)
  show ?thesis
  proof (cases "ea = eb")
    case True
    then have u: "ulp a = ulp b"
      by (simp add: ulp_positive [OF assms(1)] ulp_positive [OF b] ea_def eb_def)
    have "a / ulp b \<le> b / ulp b"
      using assms(2) ulp_pos [of b] by (simp add: divide_right_mono)
    then have "round_even (a / ulp b) \<le> round_even (b / ulp b)"
      by (rule round_even_mono)
    then have "(of_int (round_even (a / ulp b)) :: rat) \<le> of_int (round_even (b / ulp b))"
      by (simp only: of_int_le_iff)
    then have "of_int (round_even (a / ulp b)) * ulp b \<le> of_int (round_even (b / ulp b)) * ulp b"
      using ulp_pos [of b] by (simp add: mult_right_mono)
    then show ?thesis
      by (simp add: double_of_pos [OF assms(1)] double_of_pos [OF b] u)
  next
    case False
    with le have lt: "ea + 1 \<le> eb"
      by simp
    then have normal: "- 1022 \<le> exponent b" "eb = exponent b"
      by (simp_all add: ea_def eb_def)
    have "double_of a \<le> 2 powi (ea + 1)"
      unfolding ea_def by (rule double_of_le_binade [OF assms(1)])
    also have "(2 :: rat) powi (ea + 1) \<le> 2 powi eb"
      using lt by (intro power_int_increasing) simp_all
    also have "2 powi eb \<le> double_of b"
      unfolding normal(2) by (rule double_of_ge_binade [OF b normal(1)])
    finally show ?thesis .
  qed
qed

lemma double_of_mono:
  assumes "x \<le> y"
  shows "double_of x \<le> double_of y"
proof -
  consider (pos) "0 < x" | (neg) "y < 0" | (mixed) "x \<le> 0" "0 \<le> y"
    by linarith
  then show ?thesis
  proof cases
    case pos
    then show ?thesis
      using assms by (rule double_of_mono_pos)
  next
    case neg
    then have "0 < - y" "- y \<le> - x"
      using assms by simp_all
    then have "double_of (- y) \<le> double_of (- x)"
      by (rule double_of_mono_pos)
    then show ?thesis
      by (simp add: double_of_minus)
  next
    case mixed
    from mixed(1) have "0 \<le> double_of (- x)"
      by (intro double_of_nonneg) simp
    then have "double_of x \<le> 0"
      by (simp add: double_of_minus)
    also have "0 \<le> double_of y"
      using mixed(2) by (rule double_of_nonneg)
    finally show ?thesis .
  qed
qed

lemma double_of_error_pos:
  assumes "0 < a"
  shows "\<bar>double_of a - a\<bar> \<le> ulp a / 2"
proof -
  have "\<bar>of_int (round_even (a / ulp a)) - a / ulp a\<bar> * ulp a \<le> 1 / 2 * ulp a"
    using round_even_error [of "a / ulp a"] ulp_pos [of a] by (intro mult_right_mono) simp_all
  moreover have "\<bar>of_int (round_even (a / ulp a)) - a / ulp a\<bar> * ulp a
        = \<bar>of_int (round_even (a / ulp a)) * ulp a - a\<bar>"
  proof -
    have "\<bar>of_int (round_even (a / ulp a)) - a / ulp a\<bar> * ulp a
        = \<bar>(of_int (round_even (a / ulp a)) - a / ulp a) * ulp a\<bar>"
      using ulp_pos [of a] by (simp add: abs_mult)
    also have "(of_int (round_even (a / ulp a)) - a / ulp a) * ulp a
        = of_int (round_even (a / ulp a)) * ulp a - a"
      using ulp_pos [of a] by (simp add: left_diff_distrib)
    finally show ?thesis .
  qed
  ultimately show ?thesis
    by (simp add: double_of_pos [OF assms])
qed

lemma double_of_error: "\<bar>double_of x - x\<bar> \<le> ulp x / 2"
proof -
  consider (zero) "x = 0" | (pos) "0 < x" | (neg) "x < 0"
    by linarith
  then show ?thesis
  proof cases
    case zero
    then show ?thesis
      using ulp_pos [of 0] by (simp add: double_of_zero)
  next
    case pos
    then show ?thesis
      using double_of_error_pos [of x] by simp
  next
    case neg
    then have "\<bar>double_of (- x) - (- x)\<bar> \<le> ulp (- x) / 2"
      by (intro double_of_error_pos) simp
    moreover have "\<bar>double_of (- x) - (- x)\<bar> = \<bar>double_of x - x\<bar>"
      unfolding double_of_minus by (simp add: abs_minus_commute)
    ultimately show ?thesis
      by (simp add: ulp_minus)
  qed
qed

lemma ulp_relative:
  assumes "2 powi (- 1022) \<le> a"
  shows "ulp a / 2 \<le> a / 2 ^ 53"
proof -
  have "(0 :: rat) < 2 powi (- 1022)"
    by (rule zero_less_power_int) simp
  then have pos: "0 < a"
    using assms by (rule less_le_trans)
  have "exponent (2 powi (- 1022) :: rat) = - 1022"
  proof (rule exponent_unique)
    show "(2 :: rat) powi (- 1022) \<le> 2 powi (- 1022)"
      by simp
    show "(2 :: rat) powi (- 1022) < 2 powi (- 1022 + 1)"
      by (rule power_int_strict_increasing) simp_all
  qed
  moreover have "exponent (2 powi (- 1022)) \<le> exponent a"
    using assms by (intro exponent_mono) simp_all
  ultimately have "- 1022 \<le> exponent a"
    by simp
  from mantissa_ge [OF pos this] have "2 ^ 52 * ulp a \<le> a"
    using ulp_pos [of a] by (simp add: pos_le_divide_eq)
  then show ?thesis
    by simp
qed

lemma ulp_of_multiple:
  assumes "0 < a" and "0 < k" and "k < 2 ^ 53"
    and "k = round_even (a / ulp a)"
  shows "ulp (of_int k * ulp a) = ulp a"
proof -
  define e where "e = max (exponent a) (- 1022)"
  define v where "v = of_int k * ulp a"
  have v: "0 < v"
    using assms(2) ulp_pos [of a] by (simp add: v_def)
  have "(of_int k :: rat) < of_int (2 ^ 53)"
    using assms(3) by (simp only: of_int_less_iff)
  then have "v < 2 ^ 53 * ulp a"
    using ulp_pos [of a] by (simp add: v_def)
  then have upper: "v < 2 powi (e + 1)"
    by (simp add: e_def ulp_binade [OF assms(1)])
  have "\<not> e + 1 \<le> exponent v"
  proof
    assume "e + 1 \<le> exponent v"
    then have "(2 :: rat) powi (e + 1) \<le> 2 powi exponent v"
      by (intro power_int_increasing) simp_all
    with exponent_bounds(1) [OF v] upper show False
      by simp
  qed
  then have le: "exponent v \<le> e"
    by simp
  have "max (exponent v) (- 1022) = e"
  proof (cases "- 1022 \<le> exponent a")
    case True
    then have ea: "e = exponent a"
      by (simp add: e_def)
    have "of_int (2 ^ 52) \<le> a / ulp a"
      using mantissa_ge [OF assms(1) True] by simp
    then have "2 ^ 52 \<le> k"
      unfolding assms(4) by (rule round_even_ge)
    then have "(of_int (2 ^ 52) :: rat) \<le> of_int k"
      by (simp only: of_int_le_iff)
    then have "2 ^ 52 * ulp a \<le> v"
      using ulp_pos [of a] by (simp add: v_def)
    then have "2 powi e \<le> v"
      by (simp add: e_def ulp_binade [OF assms(1)])
    from exponent_unique [OF this upper] True show ?thesis
      by (simp add: ea)
  next
    case False
    then have "e = - 1022"
      by (simp add: e_def)
    with le show ?thesis
      by simp
  qed
  then have "ulp v = 2 powi (e - 52)"
    by (simp only: ulp_positive [OF v])
  also have "\<dots> = ulp a"
    by (simp only: ulp_positive [OF assms(1)] e_def)
  finally show ?thesis
    by (simp only: v_def)
qed

lemma double_of_idem_pos:
  assumes "0 < a"
  shows "double_of (double_of a) = double_of a"
proof -
  define k where "k = round_even (a / ulp a)"
  define e where "e = max (exponent a) (- 1022)"
  have d: "double_of a = of_int k * ulp a"
    by (simp add: double_of_pos [OF assms] k_def)
  have "a / ulp a \<le> of_int (2 ^ 53)"
    using mantissa_less [OF assms] by simp
  then have k53: "k \<le> 2 ^ 53"
    unfolding k_def by (rule round_even_le)
  have "of_int 0 \<le> a / ulp a"
    using assms ulp_pos [of a] by simp
  then have k0: "0 \<le> k"
    unfolding k_def by (rule round_even_ge)
  consider (zero) "k = 0" | (top) "k = 2 ^ 53" | (inner) "0 < k" "k < 2 ^ 53"
    using k0 k53 by linarith
  then show ?thesis
  proof cases
    case zero
    then show ?thesis
      by (simp add: d double_of_zero)
  next
    case top
    have v: "double_of a = 2 powi (e + 1)"
      by (simp add: d top e_def ulp_binade [OF assms])
    have ex: "exponent (2 powi (e + 1) :: rat) = e + 1"
    proof (rule exponent_unique)
      show "(2 :: rat) powi (e + 1) \<le> 2 powi (e + 1)"
        by simp
      show "(2 :: rat) powi (e + 1) < 2 powi (e + 1 + 1)"
        by (rule power_int_strict_increasing) simp_all
    qed
    have "- 1022 \<le> e"
      by (simp add: e_def)
    then have m: "max (e + 1) (- 1022) = e + 1"
      by simp
    have pos: "(0 :: rat) < 2 powi (e + 1)" "(0 :: rat) < 2 powi (e + 1 - 52)"
      by (rule zero_less_power_int, simp)+
    have u: "ulp (2 powi (e + 1)) = 2 powi (e + 1 - 52)"
      by (simp only: ulp_positive [OF pos(1)] ex m)
    have split: "(2 :: rat) powi (e + 1) = 2 ^ 52 * 2 powi (e + 1 - 52)"
      by (rule powi_split)
    have "(2 :: rat) powi (e + 1) / 2 powi (e + 1 - 52) = of_int (2 ^ 52)"
      using pos(2) by (simp add: split)
    then have "round_even (2 powi (e + 1) / 2 powi (e + 1 - 52)) = 2 ^ 52"
      by (simp only: round_even_of_int)
    then have "double_of (2 powi (e + 1)) = of_int (2 ^ 52) * 2 powi (e + 1 - 52)"
      by (simp only: double_of_pos [OF pos(1)] u)
    also have "\<dots> = 2 powi (e + 1)"
      using split by simp
    finally show ?thesis
      by (simp only: v)
  next
    case inner
    have u: "ulp (of_int k * ulp a) = ulp a"
      using assms inner k_def by (rule ulp_of_multiple)
    have v: "0 < of_int k * ulp a"
      using inner(1) ulp_pos [of a] by simp
    have "of_int k * ulp a / ulp a = of_int k"
      using ulp_pos [of a] by simp
    then have "round_even (of_int k * ulp a / ulp a) = k"
      by (simp only: round_even_of_int)
    then have "double_of (of_int k * ulp a) = of_int k * ulp a"
      by (simp only: double_of_pos [OF v] u)
    then show ?thesis
      by (simp only: d)
  qed
qed

lemma double_of_idem: "double_of (double_of x) = double_of x"
proof -
  consider (zero) "x = 0" | (pos) "0 < x" | (neg) "x < 0"
    by linarith
  then show ?thesis
  proof cases
    case zero
    then show ?thesis
      by (simp add: double_of_zero)
  next
    case pos
    then show ?thesis
      by (rule double_of_idem_pos)
  next
    case neg
    then have "double_of (double_of (- x)) = double_of (- x)"
      by (intro double_of_idem_pos) simp
    then show ?thesis
      by (simp add: double_of_minus)
  qed
qed

text \<open>
  To evaluate a rounding, name the binade and the significand: the significand nearest
  to the quotient, or the even one of the two when the quotient lies half-way.
\<close>

lemma round_even_nearest:
  assumes "\<bar>m - of_int k\<bar> < 1 / 2"
  shows "round_even m = k"
proof -
  have "of_int \<lfloor>m\<rfloor> \<le> m" "m < of_int \<lfloor>m\<rfloor> + 1"
    by linarith+
  moreover have "m < of_int k + 1 / 2" "of_int k - 1 / 2 < m"
    using assms by linarith+
  ultimately have "\<lfloor>m\<rfloor> = k \<or> \<lfloor>m\<rfloor> = k - 1"
    by linarith
  then show ?thesis
    using assms by (auto simp: round_even_def Let_def)
qed

lemma round_even_tie:
  assumes "m = of_int k + 1 / 2"
  shows "round_even m = (if even k then k else k + 1)"
proof -
  have "\<lfloor>m\<rfloor> = k"
    unfolding assms by linarith
  then show ?thesis
    by (simp add: round_even_def Let_def assms)
qed

lemma ulp_in_binade:
  assumes "2 powi e \<le> a" and "a < 2 powi (e + 1)" and "- 1022 \<le> e"
  shows "ulp a = 2 powi (e - 52)"
proof -
  have "(0 :: rat) < 2 powi e"
    by (rule zero_less_power_int) simp
  then have pos: "0 < a"
    using assms(1) by (rule less_le_trans)
  have "exponent a = e"
    using assms(1,2) by (rule exponent_unique)
  then show ?thesis
    using assms(3) by (simp add: ulp_positive [OF pos])
qed

lemma double_of_nearest:
  assumes "2 powi e \<le> a" and "a < 2 powi (e + 1)" and "- 1022 \<le> e"
    and "\<bar>a / 2 powi (e - 52) - of_int k\<bar> < 1 / 2"
  shows "double_of a = of_int k * 2 powi (e - 52)"
proof -
  have "(0 :: rat) < 2 powi e"
    by (rule zero_less_power_int) simp
  then have pos: "0 < a"
    using assms(1) by (rule less_le_trans)
  show ?thesis
    unfolding double_of_pos [OF pos] ulp_in_binade [OF assms(1-3)]
      round_even_nearest [OF assms(4)] ..
qed

lemma double_of_tie:
  assumes "2 powi e \<le> a" and "a < 2 powi (e + 1)" and "- 1022 \<le> e"
    and "a / 2 powi (e - 52) = of_int k + 1 / 2"
  shows "double_of a = of_int (if even k then k else k + 1) * 2 powi (e - 52)"
proof -
  have "(0 :: rat) < 2 powi e"
    by (rule zero_less_power_int) simp
  then have pos: "0 < a"
    using assms(1) by (rule less_le_trans)
  show ?thesis
    unfolding double_of_pos [OF pos] ulp_in_binade [OF assms(1-3)]
      round_even_tie [OF assms(4)] ..
qed

lemma double_examples:
  "double_of 0 = 0" "double_of 1 = 1" "double_of 2 = 2" "double_of 3 = 3"
  "double_of (1 / 2) = 1 / 2" "double_of (1 / 8) = 1 / 8"
  using double_of_nearest [of 0 1 4503599627370496]
    double_of_nearest [of 1 2 4503599627370496]
    double_of_nearest [of 1 3 6755399441055744]
    double_of_nearest [of "- 1" "1 / 2" 4503599627370496]
    double_of_nearest [of "- 3" "1 / 8" 4503599627370496]
  by (simp_all add: double_of_zero power_int_minus)

section \<open>Playback scheduling\<close>

lemma duration_nonneg: "0 \<le> duration b"
  unfolding duration_def by (rule double_of_nonneg) simp

lemma duration_double: "double_of (duration b) = duration b"
  unfolding duration_def by (rule double_of_idem)

lemma schedule_cursor:
  "nextStartTimeRef (schedule t b c) = double_add (max (nextStartTimeRef c) t) (duration b)"
  by (simp add: schedule_def Let_def max_def)

lemma schedule_calls:
  "calls (schedule t b c)
   = calls c @ [SourceStart (nodeCount c) (max (nextStartTimeRef c) t) (duration b)]"
  by (simp add: schedule_def Let_def max_def)

lemma schedule_nodeCount: "nodeCount (schedule t b c) = Suc (nodeCount c)"
  by (simp add: schedule_def Let_def)

lemma schedule_sources:
  "sourcesRef (schedule t b c)
   = (if nodeCount c \<in> set (sourcesRef c) then sourcesRef c else sourcesRef c @ [nodeCount c])"
  by (simp add: schedule_def Let_def)

lemma interrupt_fields:
  "sourcesRef (interrupt c) = []" "nextStartTimeRef (interrupt c) = 0"
  "calls (interrupt c) = calls c @ map SourceStop (sourcesRef c)"
  "nodeCount (interrupt c) = nodeCount c"
  by (simp_all add: interrupt_def)

text \<open>The two halves of the handler, put together.\<close>

lemma onmessage_unfold:
  "onmessage currentTime msg c0 =
     (let c =
        (case base64Audio_of msg of
           None \<Rightarrow> c0
         | Some base64Audio \<Rightarrow>
             if base64Audio \<noteq> [] \<and> outputContextRef c0 \<noteq> None \<and> outputAnalyserRef c0 \<noteq> None
             then
               (case base64ToArrayBuffer base64Audio of
                  Inl e \<Rightarrow> decode_failed c0
                | Inr bytes \<Rightarrow>
                    (case decodeAudioData (new_Uint8Array bytes) 24000 of
                       Inl e \<Rightarrow> decode_failed c0
                     | Inr audioBuffer \<Rightarrow> schedule currentTime audioBuffer c0))
             else c0)
      in if interrupted_of msg then interrupt c else c)"
  by (simp add: onmessage_def onmessage_begin_def onmessage_resume_def interruption_def Let_def
      split: option.splits sum.splits)

text \<open>The handler is its first half, one of three outcomes, followed by the interruption.\<close>

lemma onmessage_shape:
  obtains c' where "c' = c \<or> c' = decode_failed c \<or> (\<exists>b. c' = schedule t b c)"
    and "onmessage t msg c = (if interrupted_of msg then interrupt c' else c')"
proof -
  define c' where "c' =
        (case base64Audio_of msg of
           None \<Rightarrow> c
         | Some base64Audio \<Rightarrow>
             if base64Audio \<noteq> [] \<and> outputContextRef c \<noteq> None \<and> outputAnalyserRef c \<noteq> None
             then
               (case base64ToArrayBuffer base64Audio of
                  Inl e \<Rightarrow> decode_failed c
                | Inr bytes \<Rightarrow>
                    (case decodeAudioData (new_Uint8Array bytes) 24000 of
                       Inl e \<Rightarrow> decode_failed c
                     | Inr audioBuffer \<Rightarrow> schedule t audioBuffer c))
             else c)"
  have "c' = c \<or> c' = decode_failed c \<or> (\<exists>b. c' = schedule t b c)"
    unfolding c'_def by (auto split: option.splits sum.splits)
  moreover have "onmessage t msg c = (if interrupted_of msg then interrupt c' else c')"
    by (simp add: onmessage_unfold c'_def Let_def)
  ultimately show ?thesis
    by (rule that)
qed

lemma onmessage_fragment:
  assumes "base64Audio_of msg = Some a" and "a \<noteq> []"
    and "outputContextRef c \<noteq> None" and "outputAnalyserRef c \<noteq> None"
    and "base64ToArrayBuffer a = Inr bytes"
    and "decodeAudioData (new_Uint8Array bytes) 24000 = Inr audioBuffer"
  shows "onmessage t msg c
         = (if interrupted_of msg then interrupt (schedule t audioBuffer c)
            else schedule t audioBuffer c)"
  using assms by (simp add: onmessage_unfold Let_def)

text \<open>
  Claim C6. When a message carries a fragment that decodes and the schedule cursor is
  behind the clock reading, the source is started at the clock reading, not at the stale
  cursor, and the cursor moves to the clock reading plus the duration of the buffer, as
  doubles add (an interruption in the same message then resets it).
\<close>

theorem catch_up_after_stall:
  assumes "nextStartTimeRef c < currentTime"
    and "base64Audio_of msg = Some a" and "a \<noteq> []"
    and "outputContextRef c \<noteq> None" and "outputAnalyserRef c \<noteq> None"
    and "base64ToArrayBuffer a = Inr bytes"
    and "decodeAudioData (new_Uint8Array bytes) 24000 = Inr audioBuffer"
  shows "take (Suc (length (calls c))) (calls (onmessage currentTime msg c))
         = calls c @ [SourceStart (nodeCount c) currentTime (duration audioBuffer)]
         \<and> nextStartTimeRef (schedule currentTime audioBuffer c)
           = double_add currentTime (duration audioBuffer)
         \<and> nextStartTimeRef (onmessage currentTime msg c)
           = (if interrupted_of msg then 0 else double_add currentTime (duration audioBuffer))"
proof -
  have m: "max (nextStartTimeRef c) currentTime = currentTime"
    using assms(1) by simp
  show ?thesis
    unfolding onmessage_fragment [OF assms(2-7)]
    by (simp add: interrupt_fields schedule_calls schedule_cursor m)
qed

lemma audio_message_fields:
  "base64Audio_of (audio_message a flag) = Some a"
  "interrupted_of (audio_message a flag) = flag"
  "base64Audio_of interruption_message = None"
  "interrupted_of interruption_message"
  by (simp_all add: audio_message_def interruption_message_def base64Audio_of_def
      interrupted_of_def)

lemma mounted_fields:
  "nextStartTimeRef mounted = 0" "sourcesRef mounted = []" "calls mounted = []"
  "nodeCount mounted = 0" "outputContextRef mounted \<noteq> None" "outputAnalyserRef mounted \<noteq> None"
  "isMuted mounted = False" "effect_isMuted mounted = False"
  "sessionRef mounted = Some (Pending [])" "unhandled mounted = []" "console mounted = []"
  by (simp_all add: mounted_def startSession_def startSession_begin_def startSession_resume_def
      new_AudioContext_def supported_rate_def granted_def first_render_def Let_def)

lemma example_fragment:
  "base64ToArrayBuffer ''AEAAwA=='' = Inr [0, 64, 0, 192]"
  "decodeAudioData (new_Uint8Array [0, 64, 0, 192]) 24000
   = Inr \<lparr>channelData = [1 / 2, - 1 / 2], sampleRate = 24000\<rparr>"
  by (simp_all add: base64ToArrayBuffer_def atob_def strip_padding_def is_ascii_whitespace_def
      b64_index_def decodeAudioData_24000 new_Uint8Array_def word_cat_eq)

text \<open>Two frames at \<open>24000\<close> frames a second last \<open>1/12000\<close> s, which is no double.\<close>

lemma example_duration:
  "double_of (1 / 12000) = 6148914691236517 / 73786976294838206464"
  "duration \<lparr>channelData = [1 / 2, - 1 / 2], sampleRate = 24000\<rparr>
   = 6148914691236517 / 73786976294838206464"
  "double_add 5 (6148914691236517 / 73786976294838206464)
   = 5629593359205357 / 1125899906842624"
proof -
  show d: "double_of (1 / 12000) = 6148914691236517 / 73786976294838206464"
    using double_of_nearest [of "- 14" "1 / 12000" 6148914691236517]
    by (simp add: power_int_minus)
  then show "duration \<lparr>channelData = [1 / 2, - 1 / 2], sampleRate = 24000\<rparr>
   = 6148914691236517 / 73786976294838206464"
    by (simp add: duration_def)
  show "double_add 5 (6148914691236517 / 73786976294838206464)
   = 5629593359205357 / 1125899906842624"
    using double_of_nearest [of 2 "5 + 6148914691236517 / 73786976294838206464"
        5629593359205357]
    by (simp add: double_add_def power_int_minus)
qed

lemma duration_silence: "duration (silence frames) = double_of (of_nat frames / 24000)"
  by (simp add: silence_def duration_def)

theorem catch_up_after_stall_witness:
  "nextStartTimeRef mounted < 5
   \<and> take (Suc (length (calls mounted))) (calls (onmessage 5 (audio_message ''AEAAwA=='' False) mounted))
     = [SourceStart 0 5 (6148914691236517 / 73786976294838206464)]
   \<and> nextStartTimeRef (onmessage 5 (audio_message ''AEAAwA=='' False) mounted)
     = 5629593359205357 / 1125899906842624"
proof -
  have stall: "nextStartTimeRef mounted < 5"
    by (simp add: mounted_fields)
  have "take (Suc (length (calls mounted)))
          (calls (onmessage 5 (audio_message ''AEAAwA=='' False) mounted))
        = calls mounted @ [SourceStart (nodeCount mounted) 5
                             (6148914691236517 / 73786976294838206464)]"
    and "nextStartTimeRef (onmessage 5 (audio_message ''AEAAwA=='' False) mounted)
        = 5629593359205357 / 1125899906842624"
    using catch_up_after_stall [OF stall audio_message_fields(1) _ mounted_fields(5,6)
        example_fragment(1,2), of False]
    unfolding example_duration by (simp_all add: audio_message_fields)
  with stall show ?thesis
    by (simp add: mounted_fields)
qed

text \<open>
  Claim C2. After a message with the interruption flag has been handled, no source is
  active and the cursor is zero; every source that was active received \<^verbatim>\<open>stop\<close>; and a
  buffer scheduled next starts at the clock reading of that moment, whatever had been
  scheduled before.
\<close>

theorem interruption_resets:
  assumes "interrupted_of msg" and "0 \<le> now'"
  shows "sourcesRef (onmessage now msg c) = []
         \<and> nextStartTimeRef (onmessage now msg c) = 0
         \<and> list_all (\<lambda>source. SourceStop source \<in> set (calls (onmessage now msg c)))
             (sourcesRef c)
         \<and> calls (schedule now' b (onmessage now msg c))
           = calls (onmessage now msg c)
             @ [SourceStart (nodeCount (onmessage now msg c)) now' (duration b)]"
proof -
  obtain c' where c': "c' = c \<or> c' = decode_failed c \<or> (\<exists>b. c' = schedule now b c)"
    and "onmessage now msg c = (if interrupted_of msg then interrupt c' else c')"
    by (rule onmessage_shape)
  with assms(1) have step: "onmessage now msg c = interrupt c'"
    by simp
  have "set (sourcesRef c) \<subseteq> set (sourcesRef c')"
    using c' by (auto simp: decode_failed_def schedule_sources)
  then have "list_all (\<lambda>source. SourceStop source \<in> set (calls (interrupt c'))) (sourcesRef c)"
    by (auto simp: list_all_iff interrupt_fields)
  moreover have "max 0 now' = now'"
    using assms(2) by simp
  ultimately show ?thesis
    by (simp add: step interrupt_fields schedule_calls)
qed

theorem interruption_resets_witness:
  "interrupted_of interruption_message \<and> (0 :: rat) \<le> 7
   \<and> sourcesRef (schedule 1 (silence 24000) mounted) = [0]
   \<and> nextStartTimeRef (schedule 1 (silence 24000) mounted) = 2
   \<and> sourcesRef (onmessage 1 interruption_message (schedule 1 (silence 24000) mounted)) = []
   \<and> nextStartTimeRef (onmessage 1 interruption_message (schedule 1 (silence 24000) mounted)) = 0
   \<and> SourceStop 0 \<in> set (calls (onmessage 1 interruption_message (schedule 1 (silence 24000) mounted)))
   \<and> calls (schedule 7 (silence 12000)
              (onmessage 1 interruption_message (schedule 1 (silence 24000) mounted)))
     = calls (onmessage 1 interruption_message (schedule 1 (silence 24000) mounted))
       @ [SourceStart 1 7 (1 / 2)]"
proof -
  have h: "interrupted_of interruption_message" "(0 :: rat) \<le> 7"
    by (simp_all add: audio_message_fields)
  have n: "nodeCount (onmessage 1 interruption_message (schedule 1 (silence 24000) mounted)) = 1"
    by (simp add: onmessage_unfold audio_message_fields interrupt_fields schedule_nodeCount
        mounted_fields)
  from interruption_resets [OF h, of 1 "schedule 1 (silence 24000) mounted" "silence 12000"]
  show ?thesis
    by (simp add: h n schedule_sources schedule_cursor mounted_fields duration_silence
        double_add_def double_examples)
qed

section \<open>Sequences of buffers\<close>

lemma running_starts_Suc:
  "Suc i < length ds
   \<Longrightarrow> running_starts s ds ! Suc i = double_add (running_starts s ds ! i) (ds ! i)"
proof (induction ds arbitrary: s i)
  case Nil
  then show ?case by simp
next
  case (Cons d ds)
  show ?case
  proof (cases i)
    case 0
    with Cons.prems obtain d' ds' where "ds = d' # ds'"
      by (cases ds) auto
    with 0 show ?thesis
      by simp
  next
    case (Suc i')
    with Cons.prems have "Suc i' < length ds"
      by simp
    from Cons.IH [OF this] Suc show ?thesis
      by simp
  qed
qed

lemma running_starts_double:
  "double_of s = s \<Longrightarrow> i < length ds
   \<Longrightarrow> double_of (running_starts s ds ! i) = running_starts s ds ! i"
proof (induction ds arbitrary: s i)
  case Nil
  then show ?case by simp
next
  case (Cons d ds)
  show ?case
  proof (cases i)
    case 0
    with Cons.prems show ?thesis
      by simp
  next
    case (Suc i')
    have "double_of (double_add s d) = double_add s d"
      unfolding double_add_def by (rule double_of_idem)
    from Cons.IH [OF this, of i'] Cons.prems Suc show ?thesis
      by simp
  qed
qed

lemma running_starts_step:
  assumes "double_of s = s" and "\<forall>d\<in>set ds. 0 \<le> d" and "Suc i < length ds"
  shows "running_starts s ds ! i \<le> running_starts s ds ! Suc i"
proof -
  define x where "x = running_starts s ds ! i"
  have "0 \<le> ds ! i"
    using assms(2,3) by simp
  then have "double_of x \<le> double_of (x + ds ! i)"
    by (intro double_of_mono) simp
  moreover have "double_of x = x"
    unfolding x_def using assms(1,3) by (intro running_starts_double) simp_all
  ultimately show ?thesis
    by (simp add: running_starts_Suc [OF assms(3)] double_add_def x_def)
qed

lemma running_starts_mono:
  assumes "double_of s = s" and "\<forall>d\<in>set ds. 0 \<le> d" and "i \<le> j" and "j < length ds"
  shows "running_starts s ds ! i \<le> running_starts s ds ! j"
  using assms(3,4)
proof (induction j)
  case 0
  then show ?case by simp
next
  case (Suc j)
  show ?case
  proof (cases "i = Suc j")
    case True
    then show ?thesis by simp
  next
    case False
    with Suc.prems have "i \<le> j" "j < length ds"
      by simp_all
    then have "running_starts s ds ! i \<le> running_starts s ds ! j"
      by (rule Suc.IH)
    also have "\<dots> \<le> running_starts s ds ! Suc j"
      using assms(1,2) Suc.prems(2) by (rule running_starts_step)
    finally show ?thesis .
  qed
qed

lemma foldl_running_starts:
  "k < length ds
   \<Longrightarrow> foldl double_add s (take (Suc k) ds) = double_add (running_starts s ds ! k) (ds ! k)"
proof (induction ds arbitrary: s k)
  case Nil
  then show ?case by simp
next
  case (Cons d ds)
  then show ?case
    by (cases k) simp_all
qed

lemma schedule_all_in_step:
  assumes "never_behind xs c"
  shows "calls (schedule_all xs c)
         = calls c @ map (\<lambda>i. SourceStart (nodeCount c + i)
                               (running_starts (nextStartTimeRef c)
                                  (map (\<lambda>x. duration (snd x)) xs) ! i)
                               (map (\<lambda>x. duration (snd x)) xs ! i))
                      [0..<length xs]
         \<and> nextStartTimeRef (schedule_all xs c)
           = foldl double_add (nextStartTimeRef c) (map (\<lambda>x. duration (snd x)) xs)"
  using assms
proof (induction xs arbitrary: c)
  case Nil
  then show ?case by simp
next
  case (Cons x xs)
  obtain t b where x: "x = (t, b)"
    by (cases x)
  from Cons.prems have ahead: "t \<le> nextStartTimeRef c"
    and rest: "never_behind xs (schedule t b c)"
    by (simp_all add: x)
  from ahead have m: "max (nextStartTimeRef c) t = nextStartTimeRef c"
    by simp
  show ?case
    using Cons.IH [OF rest]
    by (simp add: x schedule_calls schedule_cursor schedule_nodeCount m map_upt_Suc
        del: upt_Suc)
qed

lemma never_behind_take: "never_behind xs c \<Longrightarrow> never_behind (take k xs) c"
proof (induction xs arbitrary: c k)
  case Nil
  then show ?case by simp
next
  case (Cons x xs)
  then show ?case
    by (cases x; cases k) simp_all
qed

text \<open>
  Claim C1, amended. Buffers are scheduled one after another with no interruption; after
  the first, the clock reading never exceeds the cursor; the cursor and the first clock
  reading are doubles. Then the first buffer starts at the later of cursor and clock, and
  every other buffer at the rounded sum of the start time and the duration of the buffer
  before it. That sum is the cursor after scheduling a buffer; it is within half a unit in
  the last place of the exact end of the buffer. Start times never decrease, and a buffer
  ends no later than that rounding error after any later buffer starts.
\<close>

theorem back_to_back_schedule:
  assumes "never_behind rest (schedule t b c)"
    and "double_of (nextStartTimeRef c) = nextStartTimeRef c" and "double_of t = t"
  shows "let xs = (t, b) # rest;
             ds = map (\<lambda>x. duration (snd x)) xs;
             start = (\<lambda>i. running_starts (max (nextStartTimeRef c) t) ds ! i)
         in calls (schedule_all xs c)
            = calls c @ map (\<lambda>i. SourceStart (nodeCount c + i) (start i) (ds ! i)) [0..<length xs]
          \<and> (\<forall>k<length xs.
                nextStartTimeRef (schedule_all (take (Suc k) xs) c)
                = double_add (start k) (ds ! k)
                \<and> \<bar>double_add (start k) (ds ! k) - (start k + ds ! k)\<bar>
                  \<le> ulp (start k + ds ! k) / 2)
          \<and> (\<forall>i j. i < j \<and> j < length xs \<longrightarrow>
                start i \<le> start j
                \<and> start i + ds ! i - ulp (start i + ds ! i) / 2 \<le> start j)"
proof -
  define c1 where "c1 = schedule t b c"
  define ds' where "ds' = map (\<lambda>x. duration (snd x)) rest"
  define t0 where "t0 = max (nextStartTimeRef c) t"
  define ds where "ds = duration b # ds'"
  define start where "start = (\<lambda>i. running_starts t0 ds ! i)"
  have c1: "calls c1 = calls c @ [SourceStart (nodeCount c) t0 (duration b)]"
    "nextStartTimeRef c1 = double_add t0 (duration b)" "nodeCount c1 = Suc (nodeCount c)"
    by (simp_all add: c1_def t0_def schedule_calls schedule_cursor schedule_nodeCount)
  have nonneg: "\<forall>d\<in>set ds. 0 \<le> d"
    by (auto simp: ds_def ds'_def duration_nonneg)
  have len: "length ds = Suc (length rest)"
    by (simp add: ds_def ds'_def)
  have t0: "double_of t0 = t0"
    using assms(2,3) by (simp add: t0_def max_def)
  have "calls (schedule_all rest c1)
        = calls c1 @ map (\<lambda>i. SourceStart (nodeCount c1 + i)
                               (running_starts (nextStartTimeRef c1) ds' ! i) (ds' ! i))
                     [0..<length rest]"
    using schedule_all_in_step [OF assms(1)] by (simp add: c1_def ds'_def)
  then have starts: "calls (schedule_all ((t, b) # rest) c)
        = calls c @ map (\<lambda>i. SourceStart (nodeCount c + i) (start i) (ds ! i))
                     [0..<Suc (length rest)]"
    by (simp add: c1 c1_def [symmetric] ds_def start_def map_upt_Suc del: upt_Suc)
  have cursor: "nextStartTimeRef (schedule_all (take (Suc k) ((t, b) # rest)) c)
                = double_add (start k) (ds ! k)" if "k < Suc (length rest)" for k
  proof -
    have "never_behind (take k rest) c1"
      using assms(1) by (simp add: c1_def never_behind_take)
    then have "nextStartTimeRef (schedule_all (take k rest) c1)
               = foldl double_add (nextStartTimeRef c1) (take k ds')"
      using schedule_all_in_step [of "take k rest" c1] by (simp add: ds'_def take_map)
    then have "nextStartTimeRef (schedule_all (take (Suc k) ((t, b) # rest)) c)
               = foldl double_add t0 (take (Suc k) ds)"
      by (simp add: c1 c1_def [symmetric] ds_def)
    also have "\<dots> = double_add (start k) (ds ! k)"
      unfolding start_def using that len by (intro foldl_running_starts) simp
    finally show ?thesis .
  qed
  have close: "\<bar>double_add (start k) (ds ! k) - (start k + ds ! k)\<bar>
               \<le> ulp (start k + ds ! k) / 2" for k
    unfolding double_add_def by (rule double_of_error)
  have order: "start i \<le> start j" if "i < j" and "j < Suc (length rest)" for i j
    unfolding start_def using t0 nonneg that len by (intro running_starts_mono) simp_all
  have apart: "start i + ds ! i - ulp (start i + ds ! i) / 2 \<le> start j"
    if "i < j" and "j < Suc (length rest)" for i j
  proof -
    have next_start: "start (Suc i) = double_add (start i) (ds ! i)"
      unfolding start_def using that len by (intro running_starts_Suc) simp
    have "start i + ds ! i - ulp (start i + ds ! i) / 2 \<le> double_add (start i) (ds ! i)"
      using close [of i] by linarith
    then have "start i + ds ! i - ulp (start i + ds ! i) / 2 \<le> start (Suc i)"
      by (simp only: next_start)
    also have "start (Suc i) \<le> start j"
      unfolding start_def using t0 nonneg that len by (intro running_starts_mono) simp_all
    finally show ?thesis .
  qed
  from starts cursor close order apart show ?thesis
    unfolding Let_def ds_def [symmetric] ds'_def [symmetric] t0_def [symmetric]
    by (simp add: ds_def [symmetric] ds'_def [symmetric] start_def [symmetric] del: upt_Suc)
qed

text \<open>Forty milliseconds of silence, \<open>960\<close> frames, and the sums of its duration.\<close>

lemma forty_milliseconds:
  "duration (silence 960) = 5764607523034235 / 144115188075855872"
  "double_add 0 (5764607523034235 / 144115188075855872)
   = 5764607523034235 / 144115188075855872"
  "double_add (5764607523034235 / 144115188075855872) (5764607523034235 / 144115188075855872)
   = 5764607523034235 / 72057594037927936"
  "double_add (5764607523034235 / 72057594037927936) (5764607523034235 / 144115188075855872)
   = 1080863910568919 / 9007199254740992"
  "double_add (1080863910568919 / 9007199254740992) (5764607523034235 / 144115188075855872)
   = 5764607523034235 / 36028797018963968"
proof -
  show "duration (silence 960) = 5764607523034235 / 144115188075855872"
    using double_of_nearest [of "- 5" "1 / 25" 5764607523034235]
    by (simp add: duration_silence power_int_minus)
  show "double_add 0 (5764607523034235 / 144115188075855872)
        = 5764607523034235 / 144115188075855872"
    using double_of_nearest [of "- 5" "5764607523034235 / 144115188075855872" 5764607523034235]
    by (simp add: double_add_def power_int_minus)
  show "double_add (5764607523034235 / 144115188075855872)
          (5764607523034235 / 144115188075855872)
        = 5764607523034235 / 72057594037927936"
    using double_of_nearest [of "- 4" "5764607523034235 / 72057594037927936" 5764607523034235]
    by (simp add: double_add_def power_int_minus)
  show "double_add (5764607523034235 / 72057594037927936)
          (5764607523034235 / 144115188075855872)
        = 1080863910568919 / 9007199254740992"
    using double_of_tie [of "- 4" "17293822569102705 / 144115188075855872" 8646911284551352]
    by (simp add: double_add_def power_int_minus)
  show "double_add (1080863910568919 / 9007199254740992)
          (5764607523034235 / 144115188075855872)
        = 5764607523034235 / 36028797018963968"
    using double_of_nearest [of "- 3" "23058430092136939 / 144115188075855872" 5764607523034235]
    by (simp add: double_add_def power_int_minus)
qed

lemma four_buffers:
  "never_behind [(0, silence 960), (0, silence 960), (0, silence 960)]
     (schedule 0 (silence 960) mounted)"
  "calls (schedule_all [(0, silence 960), (0, silence 960), (0, silence 960), (0, silence 960)]
            mounted)
   = [SourceStart 0 0 (5764607523034235 / 144115188075855872),
      SourceStart 1 (5764607523034235 / 144115188075855872)
        (5764607523034235 / 144115188075855872),
      SourceStart 2 (5764607523034235 / 72057594037927936)
        (5764607523034235 / 144115188075855872),
      SourceStart 3 (1080863910568919 / 9007199254740992)
        (5764607523034235 / 144115188075855872)]"
  "nextStartTimeRef (schedule_all [(0, silence 960), (0, silence 960), (0, silence 960)] mounted)
   = 1080863910568919 / 9007199254740992"
proof -
  define c1 where "c1 = schedule 0 (silence 960) mounted"
  define c2 where "c2 = schedule 0 (silence 960) c1"
  define c3 where "c3 = schedule 0 (silence 960) c2"
  define c4 where "c4 = schedule 0 (silence 960) c3"
  have c1: "nextStartTimeRef c1 = 5764607523034235 / 144115188075855872"
    "calls c1 = [SourceStart 0 0 (5764607523034235 / 144115188075855872)]" "nodeCount c1 = 1"
    by (simp_all add: c1_def schedule_cursor schedule_calls schedule_nodeCount mounted_fields
        forty_milliseconds)
  have c2: "nextStartTimeRef c2 = 5764607523034235 / 72057594037927936"
    "calls c2 = calls c1 @ [SourceStart 1 (5764607523034235 / 144115188075855872)
                             (5764607523034235 / 144115188075855872)]" "nodeCount c2 = 2"
    by (simp_all add: c2_def schedule_cursor schedule_calls schedule_nodeCount c1
        forty_milliseconds)
  have c3: "nextStartTimeRef c3 = 1080863910568919 / 9007199254740992"
    "calls c3 = calls c2 @ [SourceStart 2 (5764607523034235 / 72057594037927936)
                             (5764607523034235 / 144115188075855872)]" "nodeCount c3 = 3"
    by (simp_all add: c3_def schedule_cursor schedule_calls schedule_nodeCount c2
        forty_milliseconds)
  have c4: "calls c4 = calls c3 @ [SourceStart 3 (1080863910568919 / 9007199254740992)
                             (5764607523034235 / 144115188075855872)]"
    by (simp add: c4_def schedule_calls c3 forty_milliseconds)
  have "never_behind [(0, silence 960), (0, silence 960), (0, silence 960)] c1"
    by (simp add: c2_def [symmetric] c3_def [symmetric] c1 c2 c3)
  then show "never_behind [(0, silence 960), (0, silence 960), (0, silence 960)]
     (schedule 0 (silence 960) mounted)"
    by (simp only: c1_def)
  have "calls c4
   = [SourceStart 0 0 (5764607523034235 / 144115188075855872),
      SourceStart 1 (5764607523034235 / 144115188075855872)
        (5764607523034235 / 144115188075855872),
      SourceStart 2 (5764607523034235 / 72057594037927936)
        (5764607523034235 / 144115188075855872),
      SourceStart 3 (1080863910568919 / 9007199254740992)
        (5764607523034235 / 144115188075855872)]"
    by (simp add: c4 c3 c2 c1)
  then show "calls (schedule_all [(0, silence 960), (0, silence 960), (0, silence 960),
            (0, silence 960)] mounted)
   = [SourceStart 0 0 (5764607523034235 / 144115188075855872),
      SourceStart 1 (5764607523034235 / 144115188075855872)
        (5764607523034235 / 144115188075855872),
      SourceStart 2 (5764607523034235 / 72057594037927936)
        (5764607523034235 / 144115188075855872),
      SourceStart 3 (1080863910568919 / 9007199254740992)
        (5764607523034235 / 144115188075855872)]"
    by (simp add: c4_def c3_def c2_def c1_def)
  show "nextStartTimeRef (schedule_all [(0, silence 960), (0, silence 960), (0, silence 960)]
          mounted)
   = 1080863910568919 / 9007199254740992"
    using c3(1) by (simp add: c3_def c2_def c1_def)
qed

theorem back_to_back_schedule_witness:
  "never_behind [(0, silence 960), (0, silence 960), (0, silence 960)]
     (schedule 0 (silence 960) mounted)
   \<and> double_of (nextStartTimeRef mounted) = nextStartTimeRef mounted \<and> double_of 0 = 0
   \<and> nextStartTimeRef
       (schedule_all [(0, silence 960), (0, silence 960), (0, silence 960)] mounted)
     = 1080863910568919 / 9007199254740992
   \<and> \<bar>1080863910568919 / 9007199254740992
       - (5764607523034235 / 72057594037927936 + 5764607523034235 / 144115188075855872)\<bar>
     \<le> ulp (5764607523034235 / 72057594037927936 + 5764607523034235 / 144115188075855872) / 2
   \<and> 5764607523034235 / 72057594037927936 \<le> (1080863910568919 / 9007199254740992 :: rat)
   \<and> 5764607523034235 / 72057594037927936 + 5764607523034235 / 144115188075855872
       - ulp (5764607523034235 / 72057594037927936 + 5764607523034235 / 144115188075855872) / 2
     \<le> 1080863910568919 / 9007199254740992"
proof -
  have h: "never_behind [(0, silence 960), (0, silence 960), (0, silence 960)]
             (schedule 0 (silence 960) mounted)"
    "double_of (nextStartTimeRef mounted) = nextStartTimeRef mounted" "double_of 0 = 0"
    by (rule four_buffers(1)) (simp_all add: mounted_fields double_of_zero)
  have ds: "map (\<lambda>x. duration (snd x))
              ((0, silence 960) # [(0, silence 960), (0, silence 960), (0, silence 960)])
            = [5764607523034235 / 144115188075855872, 5764607523034235 / 144115188075855872,
               5764607523034235 / 144115188075855872, 5764607523034235 / 144115188075855872]"
    by (simp add: forty_milliseconds(1))
  have t0: "max (nextStartTimeRef mounted) 0 = 0"
    by (simp add: mounted_fields)
  have rs: "running_starts 0
              [5764607523034235 / 144115188075855872, 5764607523034235 / 144115188075855872,
               5764607523034235 / 144115188075855872, 5764607523034235 / 144115188075855872]
            = [0, 5764607523034235 / 144115188075855872, 5764607523034235 / 72057594037927936,
               1080863910568919 / 9007199254740992]"
    by (simp add: forty_milliseconds)
  note all = back_to_back_schedule [OF h, unfolded Let_def ds t0 rs]
  have third: "nextStartTimeRef
         (schedule_all [(0, silence 960), (0, silence 960), (0, silence 960)] mounted)
       = 1080863910568919 / 9007199254740992
     \<and> \<bar>1080863910568919 / 9007199254740992
         - (5764607523034235 / 72057594037927936 + 5764607523034235 / 144115188075855872)\<bar>
       \<le> ulp (5764607523034235 / 72057594037927936
                 + 5764607523034235 / 144115188075855872) / 2"
    using all [THEN conjunct2, THEN conjunct1, rule_format, of 2]
    by (simp add: forty_milliseconds(4))
  have fourth: "5764607523034235 / 72057594037927936
                \<le> (1080863910568919 / 9007199254740992 :: rat)
     \<and> 5764607523034235 / 72057594037927936 + 5764607523034235 / 144115188075855872
         - ulp (5764607523034235 / 72057594037927936
                 + 5764607523034235 / 144115188075855872) / 2
       \<le> 1080863910568919 / 9007199254740992"
    using all [THEN conjunct2, THEN conjunct2, rule_format, of 2 3] by simp
  from h third fourth show ?thesis
    by blast
qed

text \<open>
  The claim as stated has the fourth of four buffers of forty milliseconds start at the
  start of the first plus three durations, and has the cursor advance by exactly the
  duration. The sum of the third start time and the duration falls half-way between two
  doubles and is rounded down: the cursor advances by less than the duration, and the
  fourth buffer starts \<open>2^-57\<close> s before the third one ends.
\<close>

theorem back_to_back_schedule_counterexample:
  "never_behind [(0, silence 960), (0, silence 960), (0, silence 960)]
     (schedule 0 (silence 960) mounted)
   \<and> calls (schedule_all [(0, silence 960), (0, silence 960), (0, silence 960),
              (0, silence 960)] mounted)
     = [SourceStart 0 0 (5764607523034235 / 144115188075855872),
        SourceStart 1 (5764607523034235 / 144115188075855872)
          (5764607523034235 / 144115188075855872),
        SourceStart 2 (5764607523034235 / 72057594037927936)
          (5764607523034235 / 144115188075855872),
        SourceStart 3 (1080863910568919 / 9007199254740992)
          (5764607523034235 / 144115188075855872)]
   \<and> (1080863910568919 / 9007199254740992 :: rat)
     \<noteq> 0 + (5764607523034235 / 144115188075855872 + 5764607523034235 / 144115188075855872
            + 5764607523034235 / 144115188075855872)
   \<and> nextStartTimeRef
       (schedule_all [(0, silence 960), (0, silence 960), (0, silence 960)] mounted)
     \<noteq> 5764607523034235 / 72057594037927936 + 5764607523034235 / 144115188075855872
   \<and> (1080863910568919 / 9007199254740992 :: rat)
     < 5764607523034235 / 72057594037927936 + 5764607523034235 / 144115188075855872"
  unfolding four_buffers(2,3) using four_buffers(1) by simp

section \<open>Interruptions in a stream of events\<close>

lemma run_append: "run (es @ es') L = run es' (run es L)"
  by (induction es arbitrary: L) simp_all

lemma decode_failed_fields:
  "sourcesRef (decode_failed c) = sourcesRef c" "calls (decode_failed c) = calls c"
  "nodeCount (decode_failed c) = nodeCount c"
  "nextStartTimeRef (decode_failed c) = nextStartTimeRef c"
  by (simp_all add: decode_failed_def)

lemma interruption_sources:
  "set (sourcesRef (interruption msg c)) \<subseteq> set (sourcesRef c)"
  "interrupted_of msg \<Longrightarrow> sourcesRef (interruption msg c) = []"
  "interrupted_of msg \<Longrightarrow> nextStartTimeRef (interruption msg c) = 0"
  by (simp_all add: interruption_def interrupt_fields)

lemma onmessage_begin_sources:
  assumes "onmessage_begin msg c = Completed c'"
  shows "set (sourcesRef c') \<subseteq> set (sourcesRef c)"
    and "interrupted_of msg \<Longrightarrow> sourcesRef c' = []"
proof -
  from assms have "c' = interruption msg c \<or> c' = interruption msg (decode_failed c)"
    by (auto simp: onmessage_begin_def split: option.splits if_splits sum.splits)
  then show "set (sourcesRef c') \<subseteq> set (sourcesRef c)"
    and "interrupted_of msg \<Longrightarrow> sourcesRef c' = []"
    using interruption_sources(1) [of msg c] interruption_sources(1) [of msg "decode_failed c"]
      interruption_sources(2) [of msg]
    by (auto simp: decode_failed_fields)
qed

lemma onmessage_resume_sources:
  "set (sourcesRef (onmessage_resume t (Inl e) msg c)) \<subseteq> set (sourcesRef c)"
  "set (sourcesRef (onmessage_resume t (Inr b) msg c)) \<subseteq> insert (nodeCount c) (set (sourcesRef c))"
  "interrupted_of msg \<Longrightarrow> sourcesRef (onmessage_resume t r msg c) = []"
  "interrupted_of msg \<Longrightarrow> nextStartTimeRef (onmessage_resume t r msg c) = 0"
proof -
  show "set (sourcesRef (onmessage_resume t (Inl e) msg c)) \<subseteq> set (sourcesRef c)"
    using interruption_sources(1) [of msg "decode_failed c"]
    by (simp add: onmessage_resume_def decode_failed_fields)
  have "set (sourcesRef (schedule t b c)) \<subseteq> insert (nodeCount c) (set (sourcesRef c))"
    by (auto simp: schedule_sources)
  with interruption_sources(1) [of msg "schedule t b c"]
  show "set (sourcesRef (onmessage_resume t (Inr b) msg c))
        \<subseteq> insert (nodeCount c) (set (sourcesRef c))"
    unfolding onmessage_resume_def by auto
  show "interrupted_of msg \<Longrightarrow> sourcesRef (onmessage_resume t r msg c) = []"
    by (simp add: onmessage_resume_def interruption_sources(2))
  show "interrupted_of msg \<Longrightarrow> nextStartTimeRef (onmessage_resume t r msg c) = 0"
    by (simp add: onmessage_resume_def interruption_sources(3))
qed

text \<open>The handler of an interrupting message that carried a buffer, once it resumes.\<close>

lemma onmessage_resume_interrupted:
  assumes "interrupted_of msg"
  shows "calls (onmessage_resume t (Inr b) msg c)
         = calls c @ SourceStart (nodeCount c) (max (nextStartTimeRef c) t) (duration b)
                     # map SourceStop (sourcesRef (schedule t b c))"
    and "nodeCount c \<in> set (sourcesRef (schedule t b c))"
  using assms
  by (simp_all add: onmessage_resume_def interruption_def interrupt_fields schedule_calls
      schedule_sources)

text \<open>Once nothing is left of the messages up to \<open>n\<close>, it stays so.\<close>

lemma later_only_handle:
  assumes "later_only n L"
  shows "later_only n (handle e L)"
proof -
  from assms have n: "n < arrived L"
    and waiting: "\<forall>h\<in>set (suspended L). n < arrival h"
    and active: "\<forall>source\<in>set (sourcesRef (game L)).
                   case map_of (origin L) source of None \<Rightarrow> False | Some k \<Rightarrow> n < k"
    by (simp_all add: later_only_def list_all_iff)
  show ?thesis
  proof (cases e)
    case (Message msg)
    show ?thesis
    proof (cases "onmessage_begin msg (game L)")
      case (Completed c')
      from onmessage_begin_sources(1) [OF this] active
      have "\<forall>source\<in>set (sourcesRef c').
              case map_of (origin L) source of None \<Rightarrow> False | Some k \<Rightarrow> n < k"
        by blast
      with n waiting show ?thesis
        by (simp add: Message Completed later_only_def list_all_iff)
    next
      case (AwaitingDecode result)
      with n waiting active show ?thesis
        by (auto simp: Message later_only_def list_all_iff)
    qed
  next
    case (Resumed t)
    show ?thesis
    proof (cases "suspended L")
      case Nil
      with assms show ?thesis
        by (simp add: Resumed)
    next
      case (Cons h rest)
      with waiting have h: "n < arrival h" and rest: "\<forall>h'\<in>set rest. n < arrival h'"
        by simp_all
      show ?thesis
      proof (cases "settled h")
        case (Inl e)
        from onmessage_resume_sources(1) [of t e "message h" "game L"] active
        have "\<forall>source\<in>set (sourcesRef (onmessage_resume t (Inl e) (message h) (game L))).
                case map_of (origin L) source of None \<Rightarrow> False | Some k \<Rightarrow> n < k"
          by blast
        with n rest show ?thesis
          by (simp add: Resumed Cons Inl later_only_def list_all_iff)
      next
        case (Inr b)
        from onmessage_resume_sources(2) [of t b "message h" "game L"] active h
        have "\<forall>source\<in>set (sourcesRef (onmessage_resume t (Inr b) (message h) (game L))).
                case map_of ((nodeCount (game L), arrival h) # origin L) source of
                  None \<Rightarrow> False | Some k \<Rightarrow> n < k"
          by auto
        with n rest show ?thesis
          by (simp add: Resumed Cons Inr later_only_def list_all_iff)
      qed
    qed
  next
    case (SourceEnded source)
    with n waiting active show ?thesis
      by (simp add: later_only_def list_all_iff onended_def)
  qed
qed

text \<open>
  While the handler of an interrupting message is the next to resume, a message or an
  ended source changes nothing of that, and the resumption leaves nothing behind.
\<close>

lemma interruption_pending_handle:
  assumes "interruption_pending n L"
  shows "interruption_pending n (handle e L) \<or> later_only n (handle e L)"
proof -
  from assms obtain h rest where queue: "suspended L = h # rest"
    and h: "arrival h = n" "interrupted_of (message h)"
    and n: "n < arrived L" and rest: "\<forall>h'\<in>set rest. n < arrival h'"
    by (auto simp: interruption_pending_def list_all_iff split: list.splits)
  show ?thesis
  proof (cases e)
    case (Message msg)
    show ?thesis
    proof (cases "onmessage_begin msg (game L)")
      case (Completed c')
      with queue h n rest show ?thesis
        by (simp add: Message interruption_pending_def list_all_iff)
    next
      case (AwaitingDecode result)
      with queue h n rest show ?thesis
        by (auto simp: Message interruption_pending_def list_all_iff)
    qed
  next
    case (Resumed t)
    have "sourcesRef (onmessage_resume t (settled h) (message h) (game L)) = []"
      using h(2) by (rule onmessage_resume_sources(3))
    with queue n rest have "later_only n (handle e L)"
      by (simp add: Resumed later_only_def list_all_iff)
    then show ?thesis ..
  next
    case (SourceEnded source)
    with queue h n rest show ?thesis
      by (simp add: interruption_pending_def list_all_iff)
  qed
qed

lemma run_after_interruption:
  assumes "interruption_pending n L \<or> later_only n L"
  shows "interruption_pending n (run es L) \<or> later_only n (run es L)"
  using assms
proof (induction es arbitrary: L)
  case Nil
  then show ?case by simp
next
  case (Cons e es)
  from Cons.prems have "interruption_pending n (handle e L) \<or> later_only n (handle e L)"
    using interruption_pending_handle [of n L e] later_only_handle [of n L e] by blast
  from Cons.IH [OF this] show ?case
    by simp
qed

lemma interrupting_message_arrives:
  assumes "interrupted_of msg" and "suspended L = []"
  shows "interruption_pending (arrived L) (handle (Message msg) L)
         \<or> later_only (arrived L) (handle (Message msg) L)"
proof (cases "onmessage_begin msg (game L)")
  case (Completed c')
  from onmessage_begin_sources(2) [OF this assms(1)] assms(2)
  have "later_only (arrived L) (handle (Message msg) L)"
    by (simp add: Completed later_only_def)
  then show ?thesis ..
next
  case (AwaitingDecode result)
  with assms have "interruption_pending (arrived L) (handle (Message msg) L)"
    by (simp add: interruption_pending_def)
  then show ?thesis ..
qed

text \<open>
  Claim C7, amended. A message with the interruption flag arrives while no handler of an
  earlier message is suspended. Its handler first schedules the buffer the message itself
  carried, and only then handles the interruption: that source is started, and stopped
  together with every other active source; no source is active and the cursor is zero.
  From the arrival on, whatever else happens, either this handler is the next to resume,
  or every active source plays the fragment of a message that arrived later, and so does
  every buffer still waiting to be scheduled.
\<close>

theorem interruption_before_later_fragments:
  assumes "interrupted_of msg" and "suspended L = []"
  shows "calls (onmessage_resume t (Inr b) msg c)
         = calls c @ SourceStart (nodeCount c) (max (nextStartTimeRef c) t) (duration b)
                     # map SourceStop (sourcesRef (schedule t b c))
         \<and> nodeCount c \<in> set (sourcesRef (schedule t b c))
         \<and> sourcesRef (onmessage_resume t result msg c) = []
         \<and> nextStartTimeRef (onmessage_resume t result msg c) = 0
         \<and> (interruption_pending (arrived L) (run (Message msg # es) L)
            \<or> later_only (arrived L) (run (Message msg # es) L))"
proof -
  have "interruption_pending (arrived L) (run es (handle (Message msg) L))
        \<or> later_only (arrived L) (run es (handle (Message msg) L))"
    using interrupting_message_arrives [OF assms] by (rule run_after_interruption)
  then show ?thesis
    using onmessage_resume_interrupted [OF assms(1), where t = t and b = b and c = c]
      onmessage_resume_sources(3,4) [OF assms(1), where t = t and r = result and c = c]
    by simp
qed

lemma output_refs_kept:
  "outputContextRef (schedule t b c) = outputContextRef c"
  "outputAnalyserRef (schedule t b c) = outputAnalyserRef c"
  "outputContextRef (interrupt c) = outputContextRef c"
  "outputAnalyserRef (interrupt c) = outputAnalyserRef c"
  by (simp_all add: schedule_def interrupt_def Let_def)

lemma onmessage_begin_example:
  assumes "outputContextRef c \<noteq> None" and "outputAnalyserRef c \<noteq> None"
  shows "onmessage_begin (audio_message ''AEAAwA=='' flag) c = AwaitingDecode (Inr two_frames)"
  using assms
  by (simp add: onmessage_begin_def audio_message_fields example_fragment two_frames_def)

lemma onmessage_begin_interruption:
  "onmessage_begin interruption_message c = Completed (interrupt c)"
  by (simp add: onmessage_begin_def audio_message_fields interruption_def)

lemma duration_two_frames: "duration two_frames = 6148914691236517 / 73786976294838206464"
  unfolding two_frames_def by (rule example_duration(2))

text \<open>
  A fragment is played; a message with a fragment and the interruption flag follows, and
  then another fragment.
\<close>

lemma interrupted_turn:
  defines "before \<equiv> run [Message (audio_message ''AEAAwA=='' False), Resumed 0] (boot mounted)"
  defines "after \<equiv> run [Message (audio_message ''AEAAwA=='' True), Resumed 1,
                        Message (audio_message ''AEAAwA=='' False), Resumed 3] before"
  shows "suspended before = []" and "arrived before = 1" and "sourcesRef (game before) = [0]"
    and "suspended after = []" and "sourcesRef (game after) = [2]"
    and "origin after = [(2, 2), (1, 1), (0, 0)]"
    and "calls (game after)
         = [SourceStart 0 0 (6148914691236517 / 73786976294838206464),
            SourceStart 1 1 (6148914691236517 / 73786976294838206464),
            SourceStop 0, SourceStop 1,
            SourceStart 2 3 (6148914691236517 / 73786976294838206464)]"
proof -
  define c1 where "c1 = schedule 0 two_frames mounted"
  define c2 where "c2 = interrupt (schedule 1 two_frames c1)"
  define c3 where "c3 = schedule 3 two_frames c2"
  have before: "before = \<lparr>game = schedule 0 two_frames mounted, suspended = [],
                          arrived = 1, origin = [(0, 0)]\<rparr>"
    by (simp add: before_def boot_def onmessage_begin_example mounted_fields onmessage_resume_def
        interruption_def audio_message_fields)
  have "after = \<lparr>game = schedule 3 two_frames
                         (interrupt (schedule 1 two_frames (schedule 0 two_frames mounted))),
                 suspended = [], arrived = 3, origin = [(2, 2), (1, 1), (0, 0)]\<rparr>"
    by (simp add: after_def before onmessage_begin_example output_refs_kept mounted_fields
        onmessage_resume_def interruption_def audio_message_fields schedule_nodeCount
        interrupt_fields)
  then have after: "after = \<lparr>game = c3, suspended = [], arrived = 3,
                            origin = [(2, 2), (1, 1), (0, 0)]\<rparr>"
    by (simp only: c3_def c2_def c1_def)
  have before: "before = \<lparr>game = c1, suspended = [], arrived = 1, origin = [(0, 0)]\<rparr>"
    using before by (simp only: c1_def)
  have c1: "calls c1 = [SourceStart 0 0 (6148914691236517 / 73786976294838206464)]"
    "sourcesRef c1 = [0]" "nodeCount c1 = 1"
    "nextStartTimeRef c1 = 6148914691236517 / 73786976294838206464"
    using double_of_nearest [of "- 14" "6148914691236517 / 73786976294838206464"
        6148914691236517]
    by (simp_all add: c1_def schedule_calls schedule_sources schedule_nodeCount schedule_cursor
        mounted_fields duration_two_frames double_add_def power_int_minus)
  have c2: "calls c2 = calls c1 @ [SourceStart 1 1 (6148914691236517 / 73786976294838206464),
                                  SourceStop 0, SourceStop 1]"
    "sourcesRef c2 = []" "nodeCount c2 = 2" "nextStartTimeRef c2 = 0"
    by (simp_all add: c2_def interrupt_fields schedule_calls schedule_sources schedule_nodeCount
        c1 duration_two_frames)
  have c3: "calls c3 = calls c2 @ [SourceStart 2 3 (6148914691236517 / 73786976294838206464)]"
    "sourcesRef c3 = [2]"
    by (simp_all add: c3_def schedule_calls schedule_sources c2 duration_two_frames)
  show "suspended before = []" and "arrived before = 1" and "sourcesRef (game before) = [0]"
    by (simp_all add: before c1)
  show "suspended after = []" and "sourcesRef (game after) = [2]"
    and "origin after = [(2, 2), (1, 1), (0, 0)]"
    by (simp_all add: after c3)
  show "calls (game after)
         = [SourceStart 0 0 (6148914691236517 / 73786976294838206464),
            SourceStart 1 1 (6148914691236517 / 73786976294838206464),
            SourceStop 0, SourceStop 1,
            SourceStart 2 3 (6148914691236517 / 73786976294838206464)]"
    by (simp add: after c3 c2 c1)
qed

theorem interruption_before_later_fragments_witness:
  "interrupted_of (audio_message ''AEAAwA=='' True)
   \<and> suspended (run [Message (audio_message ''AEAAwA=='' False), Resumed 0] (boot mounted)) = []
   \<and> later_only 1
       (run (Message (audio_message ''AEAAwA=='' True)
             # [Resumed 1, Message (audio_message ''AEAAwA=='' False), Resumed 3])
          (run [Message (audio_message ''AEAAwA=='' False), Resumed 0] (boot mounted)))
   \<and> sourcesRef (game
       (run (Message (audio_message ''AEAAwA=='' True)
             # [Resumed 1, Message (audio_message ''AEAAwA=='' False), Resumed 3])
          (run [Message (audio_message ''AEAAwA=='' False), Resumed 0] (boot mounted)))) = [2]
   \<and> calls (game
       (run (Message (audio_message ''AEAAwA=='' True)
             # [Resumed 1, Message (audio_message ''AEAAwA=='' False), Resumed 3])
          (run [Message (audio_message ''AEAAwA=='' False), Resumed 0] (boot mounted))))
     = [SourceStart 0 0 (6148914691236517 / 73786976294838206464),
        SourceStart 1 1 (6148914691236517 / 73786976294838206464),
        SourceStop 0, SourceStop 1,
        SourceStart 2 3 (6148914691236517 / 73786976294838206464)]"
proof -
  have h: "interrupted_of (audio_message ''AEAAwA=='' True)"
    "suspended (run [Message (audio_message ''AEAAwA=='' False), Resumed 0] (boot mounted)) = []"
    by (simp add: audio_message_fields) (rule interrupted_turn(1))
  have "\<not> interruption_pending 1
       (run (Message (audio_message ''AEAAwA=='' True)
             # [Resumed 1, Message (audio_message ''AEAAwA=='' False), Resumed 3])
          (run [Message (audio_message ''AEAAwA=='' False), Resumed 0] (boot mounted)))"
    unfolding interruption_pending_def interrupted_turn(4) by simp
  with interruption_before_later_fragments [OF h,
      of 0 two_frames mounted "Inr two_frames"
        "[Resumed 1, Message (audio_message ''AEAAwA=='' False), Resumed 3]"]
  have "later_only 1
       (run (Message (audio_message ''AEAAwA=='' True)
             # [Resumed 1, Message (audio_message ''AEAAwA=='' False), Resumed 3])
          (run [Message (audio_message ''AEAAwA=='' False), Resumed 0] (boot mounted)))"
    unfolding interrupted_turn(2) by blast
  with h interrupted_turn(5,7) show ?thesis
    by blast
qed

text \<open>
  The claim as stated lets no fragment of the turn that was cut short be scheduled once
  the interruption has arrived. A message with a fragment arrives and its handler is
  suspended; the interruption arrives in the same task and is handled at once, with
  nothing to stop; then the first handler resumes and starts its source, which stays
  active. And within a single message the fragment is scheduled before the interruption
  is handled.
\<close>

theorem stale_fragment_after_interruption:
  "calls (game (run [Message (audio_message ''AEAAwA=='' False), Message interruption_message]
                  (boot mounted))) = []
   \<and> console (game (run [Message (audio_message ''AEAAwA=='' False),
                          Message interruption_message] (boot mounted)))
     = [''Model interrupted'']
   \<and> calls (game (run [Message (audio_message ''AEAAwA=='' False), Message interruption_message,
                        Resumed 1] (boot mounted)))
     = [SourceStart 0 1 (6148914691236517 / 73786976294838206464)]
   \<and> sourcesRef (game (run [Message (audio_message ''AEAAwA=='' False),
                             Message interruption_message, Resumed 1] (boot mounted))) = [0]
   \<and> origin (run [Message (audio_message ''AEAAwA=='' False), Message interruption_message,
                   Resumed 1] (boot mounted)) = [(0, 0)]
   \<and> calls (game (run [Message (audio_message ''AEAAwA=='' True), Resumed 0] (boot mounted)))
     = [SourceStart 0 0 (6148914691236517 / 73786976294838206464), SourceStop 0]"
proof -
  have refs: "outputContextRef (interrupt mounted) \<noteq> None"
    "outputAnalyserRef (interrupt mounted) \<noteq> None"
    by (simp_all add: output_refs_kept mounted_fields)
  have interrupted: "calls (interrupt mounted) = []"
    "console (interrupt mounted) = [''Model interrupted'']"
    "nodeCount (interrupt mounted) = 0" "sourcesRef (interrupt mounted) = []"
    "nextStartTimeRef (interrupt mounted) = 0"
    by (simp_all add: interrupt_def mounted_fields)
  have two: "run [Message (audio_message ''AEAAwA=='' False), Message interruption_message]
               (boot mounted)
             = \<lparr>game = interrupt mounted,
                suspended = [\<lparr>settled = Inr two_frames,
                               message = audio_message ''AEAAwA=='' False, arrival = 0\<rparr>],
                arrived = 2, origin = []\<rparr>"
    by (simp add: boot_def onmessage_begin_example onmessage_begin_interruption mounted_fields)
  have three: "run [Message (audio_message ''AEAAwA=='' False), Message interruption_message,
                 Resumed 1] (boot mounted)
             = \<lparr>game = schedule 1 two_frames (interrupt mounted), suspended = [],
                arrived = 2, origin = [(0, 0)]\<rparr>"
    by (simp add: boot_def onmessage_begin_example onmessage_begin_interruption mounted_fields
        onmessage_resume_def interruption_def audio_message_fields interrupted)
  have single: "run [Message (audio_message ''AEAAwA=='' True), Resumed 0] (boot mounted)
             = \<lparr>game = interrupt (schedule 0 two_frames mounted), suspended = [],
                arrived = 1, origin = [(0, 0)]\<rparr>"
    by (simp add: boot_def onmessage_begin_example mounted_fields onmessage_resume_def
        interruption_def audio_message_fields)
  show ?thesis
    unfolding two three single
    by (simp add: interrupted interrupt_fields schedule_calls schedule_sources
        duration_two_frames mounted_fields)
qed

section \<open>Muting\<close>

lemma opened_mounted:
  "session_opened fresh_session mounted
   = mounted\<lparr>sessionRef := Some (Fulfilled fresh_session), status := Active,
       console := [''Live Session Connected'']\<rparr>"
  by (simp add: session_opened_def mounted_def startSession_def startSession_begin_def
      startSession_resume_def new_AudioContext_def supported_rate_def granted_def
      first_render_def onopen_def Let_def)

lemma half_sample_frame: "base64 (createPCM16Blob [1 / 2]) = ''/z8=''"
proof -
  have "truncate_toward_zero (1 / 2 * 32767) = 16383"
    by code_simp
  then have "encode_sample (1 / 2) = 16383"
    by (simp add: encode_sample_def ToInt16_def)
  moreover have "char_of (47 :: nat) = CHR ''/''" "char_of (122 :: nat) = CHR ''z''"
    "char_of (56 :: nat) = CHR ''8''"
    by code_simp+
  ultimately show ?thesis
    by (simp add: createPCM16Blob_def new_Uint8Array_def int16_bytes_def
        arrayBufferToBase64_def btoa_def b64_char_def)
qed

text \<open>
  Claim C3 fails on the code. The component is mounted, the session opens, the user
  mutes, and a chunk completes: \<open>isMuted\<close> is set, yet the encoded frame reaches
  \<^verbatim>\<open>sendRealtimeInput\<close>. The handler tests the \<open>isMuted\<close> of the render that ran the
  effect, and the effect does not run again when \<open>isMuted\<close> changes.
\<close>

theorem muted_chunk_is_forwarded:
  "isMuted (toggleMute (session_opened fresh_session mounted))
   \<and> sessionRef (onaudioprocess [1 / 2] (toggleMute (session_opened fresh_session mounted)))
     = Some (Fulfilled \<lparr>realtimeInputs = [(''audio/pcm;rate=16000'', ''/z8='')],
                        session_closed = False, close_throws = False\<rparr>)"
proof -
  define c where "c = toggleMute (session_opened fresh_session mounted)"
  have c: "isMuted c" "\<not> effect_isMuted c" "sessionRef c = Some (Fulfilled fresh_session)"
    by (simp_all add: c_def opened_mounted toggleMute_def mounted_fields)
  have "sessionRef (onaudioprocess [1 / 2] c)
        = Some (Fulfilled (fresh_session\<lparr>realtimeInputs :=
                   [(''audio/pcm;rate=16000'', ''/z8='')]\<rparr>))"
    by (simp add: onaudioprocess_def session_then_def c half_sample_frame fresh_session_def)
  with c(1) show ?thesis
    by (simp add: c_def fresh_session_def)
qed

section \<open>Teardown\<close>

lemma stop_tracks_all: "stop_tracks ts = Inr (map (\<lambda>t. Ended) ts)"
  by (induction ts) (simp_all add: track_stop_def)

lemma stop_stream_result:
  "stop_stream c = Inr (c\<lparr>streamRef := map_option (map (\<lambda>t. Ended)) (streamRef c)\<rparr>)"
  by (cases "streamRef c") (simp_all add: stop_stream_def stop_tracks_all)

lemma context_close_result:
  "\<exists>es. context_close ctx = Inr (ctx\<lparr>context_state := ContextClosed\<rparr>, es)"
  by (cases "context_state ctx = ContextClosed") (auto simp: context_close_def)

lemma close_input_result:
  "\<exists>es. close_input c
        = Inr (c\<lparr>inputContextRef :=
                   map_option (\<lambda>ctx. ctx\<lparr>context_state := ContextClosed\<rparr>) (inputContextRef c),
                 unhandled := unhandled c @ es\<rparr>)"
proof (cases "inputContextRef c")
  case None
  then have "close_input c = Inr (c\<lparr>inputContextRef := None, unhandled := unhandled c @ []\<rparr>)"
    by (simp add: close_input_def)
  with None show ?thesis
    by (metis option.map_disc_iff)
next
  case (Some ctx)
  from context_close_result [of ctx] obtain es
    where "context_close ctx = Inr (ctx\<lparr>context_state := ContextClosed\<rparr>, es)" ..
  with Some have "close_input c
        = Inr (c\<lparr>inputContextRef := Some (ctx\<lparr>context_state := ContextClosed\<rparr>),
                 unhandled := unhandled c @ es\<rparr>)"
    by (simp add: close_input_def)
  with Some show ?thesis
    by (metis option.simps(9))
qed

lemma close_output_result:
  "\<exists>es. close_output c
        = Inr (c\<lparr>outputContextRef :=
                   map_option (\<lambda>ctx. ctx\<lparr>context_state := ContextClosed\<rparr>) (outputContextRef c),
                 unhandled := unhandled c @ es\<rparr>)"
proof (cases "outputContextRef c")
  case None
  then have "close_output c = Inr (c\<lparr>outputContextRef := None, unhandled := unhandled c @ []\<rparr>)"
    by (simp add: close_output_def)
  with None show ?thesis
    by (metis option.map_disc_iff)
next
  case (Some ctx)
  from context_close_result [of ctx] obtain es
    where "context_close ctx = Inr (ctx\<lparr>context_state := ContextClosed\<rparr>, es)" ..
  with Some have "close_output c
        = Inr (c\<lparr>outputContextRef := Some (ctx\<lparr>context_state := ContextClosed\<rparr>),
                 unhandled := unhandled c @ es\<rparr>)"
    by (simp add: close_output_def)
  with Some show ?thesis
    by (metis option.simps(9))
qed

lemma promise_then_close: "fst (promise_then CloseSession p) = close_requested p"
  by (cases p) (simp_all add: close_requested_def)

lemma session_then_close:
  "\<exists>es. session_then CloseSession c
        = c\<lparr>sessionRef := map_option close_requested (sessionRef c),
            unhandled := unhandled c @ es\<rparr>"
proof (cases "sessionRef c")
  case None
  then have "session_then CloseSession c
        = c\<lparr>sessionRef := map_option close_requested (sessionRef c),
            unhandled := unhandled c @ []\<rparr>"
    by (simp add: session_then_def)
  then show ?thesis ..
next
  case (Some p)
  obtain p' es where pe: "promise_then CloseSession p = (p', es)"
    by (cases "promise_then CloseSession p")
  with promise_then_close [of p] have "p' = close_requested p"
    by simp
  with Some pe have "session_then CloseSession c
        = c\<lparr>sessionRef := map_option close_requested (sessionRef c),
            unhandled := unhandled c @ es\<rparr>"
    by (simp add: session_then_def)
  then show ?thesis ..
qed

lemma cleanup_result:
  "\<exists>es. cleanup c
        = Inr (c\<lparr>isActive := False,
                 sessionRef := map_option close_requested (sessionRef c),
                 streamRef := map_option (map (\<lambda>t. Ended)) (streamRef c),
                 inputContextRef :=
                   map_option (\<lambda>ctx. ctx\<lparr>context_state := ContextClosed\<rparr>) (inputContextRef c),
                 outputContextRef :=
                   map_option (\<lambda>ctx. ctx\<lparr>context_state := ContextClosed\<rparr>) (outputContextRef c),
                 unhandled := unhandled c @ es\<rparr>)"
proof -
  define c1 where "c1 = c\<lparr>isActive := False\<rparr>"
  from session_then_close [of c1] obtain es1 where
    s: "session_then CloseSession c1
        = c1\<lparr>sessionRef := map_option close_requested (sessionRef c1),
             unhandled := unhandled c1 @ es1\<rparr>" ..
  define c2 where "c2 = session_then CloseSession c1"
  define c3 where "c3 = c2\<lparr>streamRef := map_option (map (\<lambda>t. Ended)) (streamRef c2)\<rparr>"
  from close_input_result [of c3] obtain es2 where
    i: "close_input c3
        = Inr (c3\<lparr>inputContextRef :=
                   map_option (\<lambda>ctx. ctx\<lparr>context_state := ContextClosed\<rparr>) (inputContextRef c3),
                  unhandled := unhandled c3 @ es2\<rparr>)" ..
  define c4 where "c4 = c3\<lparr>inputContextRef :=
                   map_option (\<lambda>ctx. ctx\<lparr>context_state := ContextClosed\<rparr>) (inputContextRef c3),
                  unhandled := unhandled c3 @ es2\<rparr>"
  from close_output_result [of c4] obtain es3 where
    out: "close_output c4
        = Inr (c4\<lparr>outputContextRef :=
                   map_option (\<lambda>ctx. ctx\<lparr>context_state := ContextClosed\<rparr>) (outputContextRef c4),
                  unhandled := unhandled c4 @ es3\<rparr>)" ..
  have "cleanup c = close_output c4"
    by (simp add: cleanup_def Let_def c1_def [symmetric] c2_def [symmetric] stop_stream_result
        c3_def [symmetric] i c4_def [symmetric])
  moreover have "c4\<lparr>outputContextRef :=
                   map_option (\<lambda>ctx. ctx\<lparr>context_state := ContextClosed\<rparr>) (outputContextRef c4),
                  unhandled := unhandled c4 @ es3\<rparr>
        = c\<lparr>isActive := False,
                 sessionRef := map_option close_requested (sessionRef c),
                 streamRef := map_option (map (\<lambda>t. Ended)) (streamRef c),
                 inputContextRef :=
                   map_option (\<lambda>ctx. ctx\<lparr>context_state := ContextClosed\<rparr>) (inputContextRef c),
                 outputContextRef :=
                   map_option (\<lambda>ctx. ctx\<lparr>context_state := ContextClosed\<rparr>) (outputContextRef c),
                 unhandled := unhandled c @ (es1 @ es2 @ es3)\<rparr>"
    by (simp add: c4_def c3_def c2_def c1_def s [unfolded c1_def])
  ultimately have "cleanup c = Inr (c\<lparr>isActive := False,
                 sessionRef := map_option close_requested (sessionRef c),
                 streamRef := map_option (map (\<lambda>t. Ended)) (streamRef c),
                 inputContextRef :=
                   map_option (\<lambda>ctx. ctx\<lparr>context_state := ContextClosed\<rparr>) (inputContextRef c),
                 outputContextRef :=
                   map_option (\<lambda>ctx. ctx\<lparr>context_state := ContextClosed\<rparr>) (outputContextRef c),
                 unhandled := unhandled c @ (es1 @ es2 @ es3)\<rparr>)"
    using out by simp
  then show ?thesis ..
qed

text \<open>
  What the cleanup does with the refs it finds. From every state it returns without an
  exception; every track of the stream is ended and both contexts are closed, whatever
  the session promise holds and whether or not closing the session raises or a context
  was closed already; the session is asked to close; and a second cleanup returns as well
  and leaves the stream and the contexts as they are.
\<close>

lemma cleanup_releases_refs:
  "\<exists>c'. cleanup c = Inr c'
     \<and> \<not> isActive c'
     \<and> streamRef c' = map_option (map (\<lambda>t. Ended)) (streamRef c)
     \<and> inputContextRef c'
       = map_option (\<lambda>ctx. ctx\<lparr>context_state := ContextClosed\<rparr>) (inputContextRef c)
     \<and> outputContextRef c'
       = map_option (\<lambda>ctx. ctx\<lparr>context_state := ContextClosed\<rparr>) (outputContextRef c)
     \<and> sessionRef c' = map_option close_requested (sessionRef c)
     \<and> (\<exists>c''. cleanup c' = Inr c''
           \<and> streamRef c'' = streamRef c'
           \<and> inputContextRef c'' = inputContextRef c'
           \<and> outputContextRef c'' = outputContextRef c')"
proof -
  from cleanup_result [of c] obtain es c' where c': "cleanup c = Inr c'"
    and c'_def: "c' = c\<lparr>isActive := False,
                 sessionRef := map_option close_requested (sessionRef c),
                 streamRef := map_option (map (\<lambda>t. Ended)) (streamRef c),
                 inputContextRef :=
                   map_option (\<lambda>ctx. ctx\<lparr>context_state := ContextClosed\<rparr>) (inputContextRef c),
                 outputContextRef :=
                   map_option (\<lambda>ctx. ctx\<lparr>context_state := ContextClosed\<rparr>) (outputContextRef c),
                 unhandled := unhandled c @ es\<rparr>"
    by blast
  from cleanup_result [of c'] obtain es' c'' where c'': "cleanup c' = Inr c''"
    and c''_def: "c'' = c'\<lparr>isActive := False,
                 sessionRef := map_option close_requested (sessionRef c'),
                 streamRef := map_option (map (\<lambda>t. Ended)) (streamRef c'),
                 inputContextRef :=
                   map_option (\<lambda>ctx. ctx\<lparr>context_state := ContextClosed\<rparr>) (inputContextRef c'),
                 outputContextRef :=
                   map_option (\<lambda>ctx. ctx\<lparr>context_state := ContextClosed\<rparr>) (outputContextRef c'),
                 unhandled := unhandled c' @ es'\<rparr>"
    by blast
  have first: "\<not> isActive c'"
    "streamRef c' = map_option (map (\<lambda>t. Ended)) (streamRef c)"
    "inputContextRef c'
       = map_option (\<lambda>ctx. ctx\<lparr>context_state := ContextClosed\<rparr>) (inputContextRef c)"
    "outputContextRef c'
       = map_option (\<lambda>ctx. ctx\<lparr>context_state := ContextClosed\<rparr>) (outputContextRef c)"
    "sessionRef c' = map_option close_requested (sessionRef c)"
    by (simp_all add: c'_def)
  have again: "streamRef c'' = streamRef c'" "inputContextRef c'' = inputContextRef c'"
    "outputContextRef c'' = outputContextRef c'"
    by (simp_all add: c''_def first option.map_comp comp_def)
  from c' c'' first again show ?thesis
    by blast
qed

text \<open>
  Claim C8 fails on the code. The component is mounted and asks for the microphone, and it
  is unmounted while \<^verbatim>\<open>getUserMedia\<close> is pending: the cleanup returns, having closed both
  contexts and found no stream and no session to release. Then the permission is granted
  and \<^verbatim>\<open>startSession\<close> resumes: it keeps the stream and connects, although \<open>isActive\<close> is
  unset. Both tracks stay live and the session opens and stays open; no cleanup runs
  again. The callbacks of the session test \<open>isActive\<close>; the rest of \<^verbatim>\<open>startSession\<close> does
  not.
\<close>

theorem teardown_before_media_leaks:
  "startSession_begin granted first_render = AwaitingMedia awaiting_media
   \<and> cleanup awaiting_media = Inr unmounted_early
   \<and> streamRef unmounted_early = None \<and> sessionRef unmounted_early = None
   \<and> \<not> isActive (startSession_resume granted unmounted_early)
   \<and> streamRef (startSession_resume granted unmounted_early) = Some [Live, Live]
   \<and> sessionRef (startSession_resume granted unmounted_early) = Some (Pending [])
   \<and> streamRef (session_opened fresh_session (startSession_resume granted unmounted_early))
     = Some [Live, Live]
   \<and> sessionRef (session_opened fresh_session (startSession_resume granted unmounted_early))
     = Some (Fulfilled fresh_session)
   \<and> \<not> session_closed fresh_session"
proof -
  have start: "startSession_begin granted first_render = AwaitingMedia awaiting_media"
    by (simp add: startSession_begin_def new_AudioContext_def supported_rate_def granted_def
        awaiting_media_def first_render_def Let_def)
  have teardown: "cleanup awaiting_media = Inr unmounted_early"
    by (simp add: cleanup_def session_then_def stop_stream_def close_input_def close_output_def
        context_close_def awaiting_media_def unmounted_early_def first_render_def Let_def)
  have resumed: "startSession_resume granted unmounted_early
        = unmounted_early\<lparr>streamRef := Some [Live, Live],
            inputAnalyserRef := Some (),
            processorRef := Some 4096,
            outputAnalyserRef := Some (),
            sessionRef := Some (Pending [])\<rparr>"
    by (simp add: startSession_resume_def granted_def)
  have early: "streamRef unmounted_early = None" "sessionRef unmounted_early = None"
    "\<not> isActive unmounted_early"
    by (simp_all add: unmounted_early_def first_render_def)
  have opened: "streamRef (session_opened fresh_session
                             (startSession_resume granted unmounted_early)) = Some [Live, Live]"
    "sessionRef (session_opened fresh_session (startSession_resume granted unmounted_early))
     = Some (Fulfilled fresh_session)"
    by (simp_all add: resumed session_opened_def onopen_def Let_def)
  from start teardown early opened show ?thesis
    by (simp add: resumed fresh_session_def)
qed

end
